theory Spec2Isabelle
  imports Main "HOL-Library.Sublist" "HOL-Library.Code_Target_Nat"
begin

section \<open>Identifiers and collections\<close>

text \<open>
  Identifiers (snowflakes) are strings. A payload may lack the field, and reading it then
  gives JavaScript's \<^verbatim>\<open>undefined\<close>: that is \<open>None\<close>.
\<close>

type_synonym snowflake = "string option"

text \<open>
  \<^verbatim>\<open>id || other\<close> on identifiers: \<^verbatim>\<open>undefined\<close> and the empty string are falsy.
\<close>

definition truthy_id :: "snowflake \<Rightarrow> bool" where
  "truthy_id i = (case i of None \<Rightarrow> False | Some s \<Rightarrow> s \<noteq> [])"

definition or_id :: "snowflake \<Rightarrow> snowflake \<Rightarrow> snowflake" where
  "or_id a b = (if truthy_id a then a else b)"

text \<open>
  \<^verbatim>\<open>Collection\<close> extends the built-in \<^verbatim>\<open>Map\<close>: keys are unique and iteration follows
  insertion order, so a collection is an association list. \<^verbatim>\<open>get\<close> returns
  \<^verbatim>\<open>undefined\<close> (\<open>None\<close>) for a missing key, \<^verbatim>\<open>set\<close> overwrites the value of a
  present key in place and appends a new key at the end, \<^verbatim>\<open>delete\<close> removes the key.
\<close>

type_synonym ('k, 'v) collection = "('k \<times> 'v) list"

definition coll_get :: "('k, 'v) collection \<Rightarrow> 'k \<Rightarrow> 'v option" where
  "coll_get m k = map_of m k"

fun coll_set :: "('k, 'v) collection \<Rightarrow> 'k \<Rightarrow> 'v \<Rightarrow> ('k, 'v) collection" where
  "coll_set [] k v = [(k, v)]"
| "coll_set ((k', v') # m) k v =
     (if k' = k then (k, v) # m else (k', v') # coll_set m k v)"

definition coll_delete :: "('k, 'v) collection \<Rightarrow> 'k \<Rightarrow> ('k, 'v) collection" where
  "coll_delete m k = filter (\<lambda>kv. fst kv \<noteq> k) m"

definition keys :: "('k, 'v) collection \<Rightarrow> 'k set" where
  "keys m = fst ` set m"

definition coll_values :: "('k, 'v) collection \<Rightarrow> 'v list" where
  "coll_values m = map snd m"

section \<open>Emoji list synchronisation (GuildEmojisUpdate.js)\<close>

text \<open>
  A raw emoji payload and a cached \<^verbatim>\<open>Emoji\<close> entity: an identifier and the fields
  populated from the last payload applied. The field contents are left abstract (\<open>'f\<close>).
\<close>

record 'f raw_emoji =
  raw_id :: snowflake
  raw_fields :: 'f

record 'f emoji =
  emoji_id :: snowflake
  emoji_fields :: 'f

record 'f guild =
  guild_emojis :: "(snowflake, 'f emoji) collection option"

record 'f client =
  guilds :: "(snowflake, 'f guild) collection"

record 'f emojis_update =
  guild_id :: snowflake
  emojis :: "'f raw_emoji list"

text \<open>
  What the client emits. \<open>Debug\<close> is the client's diagnostic event
  (\<^verbatim>\<open>this.emit('debug', ...)\<close> in Client.js).
\<close>

datatype 'f event =
    EmojiUpdated "'f emoji" "'f emoji"
  | EmojiCreated "'f emoji"
  | EmojiDeleted "'f emoji"
  | Debug string

fun is_updated :: "'f event \<Rightarrow> bool" where
  "is_updated (EmojiUpdated _ _) = True"
| "is_updated _ = False"

fun is_created :: "'f event \<Rightarrow> bool" where
  "is_created (EmojiCreated _) = True"
| "is_created _ = False"

fun is_deleted :: "'f event \<Rightarrow> bool" where
  "is_deleted (EmojiDeleted _) = True"
| "is_deleted _ = False"

fun is_debug :: "'f event \<Rightarrow> bool" where
  "is_debug (Debug _) = True"
| "is_debug _ = False"

text \<open>The identifier an emoji event is about (none for a diagnostic).\<close>

fun event_id :: "'f event \<Rightarrow> snowflake" where
  "event_id (EmojiUpdated old new) = emoji_id new"
| "event_id (EmojiCreated e) = emoji_id e"
| "event_id (EmojiDeleted e) = emoji_id e"
| "event_id (Debug _) = None"

text \<open>
  \<^verbatim>\<open>mappify(iterable)\<close>: a fresh \<^verbatim>\<open>Map\<close> filled by \<^verbatim>\<open>set\<close> with every entry of the
  iterable, in its order.
\<close>

definition mappify :: "('k \<times> 'v) list \<Rightarrow> ('k, 'v) collection" where
  "mappify iterable = foldl (\<lambda>m x. coll_set m (fst x) (snd x)) [] iterable"

text \<open>
  The three per-emoji actions \<^verbatim>\<open>GuildEmojiCreate\<close>, \<^verbatim>\<open>GuildEmojiUpdate\<close> and
  \<^verbatim>\<open>GuildEmojiDelete\<close>, which \<^verbatim>\<open>handle\<close> calls, and the \<^verbatim>\<open>Emoji\<close> class are not
  among the source files. Each action is modelled from the spec, as a function that takes
  the guild's emoji store and returns it updated, with the events emitted.
\<close>

text \<open>
  Modelled from the spec: the \<^verbatim>\<open>Emoji\<close> constructor, which is missing. An entity has
  "a unique identifier" and "a mutable set of fields populated from the last payload
  applied".
\<close>

definition new_emoji :: "'f raw_emoji \<Rightarrow> 'f emoji" where
  "new_emoji data = \<lparr>emoji_id = raw_id data, emoji_fields = raw_fields data\<rparr>"

text \<open>
  Modelled from the spec: \<^verbatim>\<open>GuildEmojiCreate.handle(guild, emoji)\<close>, which is missing.
  "If not cached, create it, insert into store, emit a created notification."
\<close>

definition GuildEmojiCreate_handle ::
  "(snowflake, 'f emoji) collection \<Rightarrow> 'f raw_emoji
    \<Rightarrow> (snowflake, 'f emoji) collection \<times> 'f event list" where
  "GuildEmojiCreate_handle store data =
     (let e = new_emoji data in (coll_set store (emoji_id e) e, [EmojiCreated e]))"

text \<open>
  Modelled from the spec: what applying a payload to a cached emoji leaves, the fields
  being "populated from the last payload applied"; the \<^verbatim>\<open>Emoji\<close> class is missing.
\<close>

definition patch_emoji :: "'f emoji \<Rightarrow> 'f raw_emoji \<Rightarrow> 'f emoji" where
  "patch_emoji current data = current\<lparr>emoji_fields := raw_fields data\<rparr>"

text \<open>
  Modelled from the spec: \<^verbatim>\<open>GuildEmojiUpdate.handle(cachedEmoji, emoji)\<close>, which is
  missing. "Emit an updated notification carrying (old, new)"; the cached emoji is changed
  in place, so the store holds the new one under the same key.
\<close>

definition GuildEmojiUpdate_handle ::
  "(snowflake, 'f emoji) collection \<Rightarrow> 'f emoji \<Rightarrow> 'f raw_emoji
    \<Rightarrow> (snowflake, 'f emoji) collection \<times> 'f event list" where
  "GuildEmojiUpdate_handle store current data =
     (let e = patch_emoji current data
      in (coll_set store (emoji_id current) e, [EmojiUpdated current e]))"

text \<open>
  Modelled from the spec: \<^verbatim>\<open>GuildEmojiDelete.handle(emoji)\<close>, which is missing. "Remove
  it from the store and emit a deleted notification."
\<close>

definition GuildEmojiDelete_handle ::
  "(snowflake, 'f emoji) collection \<Rightarrow> 'f emoji
    \<Rightarrow> (snowflake, 'f emoji) collection \<times> 'f event list" where
  "GuildEmojiDelete_handle store e = (coll_delete store (emoji_id e), [EmojiDeleted e])"

text \<open>
  The first loop of \<^verbatim>\<open>handle\<close>, over \<^verbatim>\<open>data.emojis\<close>. Its state is the guild's emoji
  store (which the called actions mutate), the \<^verbatim>\<open>deletions\<close> map and the events emitted
  so far. \<open>equals\<close> is \<^verbatim>\<open>Emoji.equals\<close>, which is not among the source files.
  \<^verbatim>\<open>deletions\<close> shares its emoji objects with the store, but an emoji leaves it before
  the loop updates that emoji, so it never holds a changed one.
\<close>

fun emoji_loop ::
  "('f emoji \<Rightarrow> 'f raw_emoji \<Rightarrow> bool) \<Rightarrow> 'f raw_emoji list
    \<Rightarrow> (snowflake, 'f emoji) collection \<times> (snowflake, 'f emoji) collection \<times> 'f event list
    \<Rightarrow> (snowflake, 'f emoji) collection \<times> (snowflake, 'f emoji) collection \<times> 'f event list"
  where
  "emoji_loop equals [] st = st"
| "emoji_loop equals (emoji # rest) (store, deletions, evs) =
     (case coll_get store (raw_id emoji) of
        Some cachedEmoji \<Rightarrow>
          (let deletions' = coll_delete deletions (raw_id emoji)
           in if \<not> equals cachedEmoji emoji
              then (let (store', new) = GuildEmojiUpdate_handle store cachedEmoji emoji
                    in emoji_loop equals rest (store', deletions', evs @ new))
              else emoji_loop equals rest (store, deletions', evs))
      | None \<Rightarrow>
          (let (store', new) = GuildEmojiCreate_handle store emoji
           in emoji_loop equals rest (store', deletions, evs @ new)))"

text \<open>The second loop, over \<^verbatim>\<open>deletions.values()\<close>.\<close>

fun delete_loop ::
  "'f emoji list \<Rightarrow> (snowflake, 'f emoji) collection \<times> 'f event list
    \<Rightarrow> (snowflake, 'f emoji) collection \<times> 'f event list" where
  "delete_loop [] st = st"
| "delete_loop (emoji # rest) (store, evs) =
     (let (store', new) = GuildEmojiDelete_handle store emoji
      in delete_loop rest (store', evs @ new))"

text \<open>
  \<^verbatim>\<open>GuildEmojisUpdateAction.handle(data)\<close>. The guild object is shared with the client's
  guild collection, so the store the loops leave behind is the guild's store afterwards.
\<close>

definition GuildEmojisUpdate_handle ::
  "('f emoji \<Rightarrow> 'f raw_emoji \<Rightarrow> bool) \<Rightarrow> 'f client \<Rightarrow> 'f emojis_update
    \<Rightarrow> 'f client \<times> 'f event list" where
  "GuildEmojisUpdate_handle equals cl data =
     (case coll_get (guilds cl) (guild_id data) of
        None \<Rightarrow> (cl, [])
      | Some guild \<Rightarrow>
          (case guild_emojis guild of
             None \<Rightarrow> (cl, [])
           | Some store \<Rightarrow>
               (let deletions = mappify store;
                    (store1, deletions1, evs1) =
                       emoji_loop equals (emojis data) (store, deletions, []);
                    (store2, evs2) = delete_loop (coll_values deletions1) (store1, evs1)
                in (cl\<lparr>guilds := coll_set (guilds cl) (guild_id data)
                                  (guild\<lparr>guild_emojis := Some store2\<rparr>)\<rparr>,
                    evs2))))"

text \<open>
  What \<^verbatim>\<open>handle\<close> does with an entry that has no cached emoji is decided by
  \<^verbatim>\<open>GuildEmojiCreate.handle\<close>, which it calls for it. The first loop and \<^verbatim>\<open>handle\<close>
  follow once more, with that action as the parameter \<open>create\<close>: they are \<open>emoji_loop\<close>
  and \<open>GuildEmojisUpdate_handle\<close> when \<open>create\<close> is \<open>GuildEmojiCreate_handle\<close>.
\<close>

fun emoji_loop_with ::
  "((snowflake, 'f emoji) collection \<Rightarrow> 'f raw_emoji
      \<Rightarrow> (snowflake, 'f emoji) collection \<times> 'f event list)
    \<Rightarrow> ('f emoji \<Rightarrow> 'f raw_emoji \<Rightarrow> bool) \<Rightarrow> 'f raw_emoji list
    \<Rightarrow> (snowflake, 'f emoji) collection \<times> (snowflake, 'f emoji) collection \<times> 'f event list
    \<Rightarrow> (snowflake, 'f emoji) collection \<times> (snowflake, 'f emoji) collection \<times> 'f event list"
  where
  "emoji_loop_with create equals [] st = st"
| "emoji_loop_with create equals (emoji # rest) (store, deletions, evs) =
     (case coll_get store (raw_id emoji) of
        Some cachedEmoji \<Rightarrow>
          (let deletions' = coll_delete deletions (raw_id emoji)
           in if \<not> equals cachedEmoji emoji
              then (let (store', new) = GuildEmojiUpdate_handle store cachedEmoji emoji
                    in emoji_loop_with create equals rest (store', deletions', evs @ new))
              else emoji_loop_with create equals rest (store, deletions', evs))
      | None \<Rightarrow>
          (let (store', new) = create store emoji
           in emoji_loop_with create equals rest (store', deletions, evs @ new)))"

definition GuildEmojisUpdate_handle_with ::
  "((snowflake, 'f emoji) collection \<Rightarrow> 'f raw_emoji
      \<Rightarrow> (snowflake, 'f emoji) collection \<times> 'f event list)
    \<Rightarrow> ('f emoji \<Rightarrow> 'f raw_emoji \<Rightarrow> bool) \<Rightarrow> 'f client \<Rightarrow> 'f emojis_update
    \<Rightarrow> 'f client \<times> 'f event list" where
  "GuildEmojisUpdate_handle_with create equals cl data =
     (case coll_get (guilds cl) (guild_id data) of
        None \<Rightarrow> (cl, [])
      | Some guild \<Rightarrow>
          (case guild_emojis guild of
             None \<Rightarrow> (cl, [])
           | Some store \<Rightarrow>
               (let deletions = mappify store;
                    (store1, deletions1, evs1) =
                       emoji_loop_with create equals (emojis data) (store, deletions, []);
                    (store2, evs2) = delete_loop (coll_values deletions1) (store1, evs1)
                in (cl\<lparr>guilds := coll_set (guilds cl) (guild_id data)
                                  (guild\<lparr>guild_emojis := Some store2\<rparr>)\<rparr>,
                    evs2))))"


subsection \<open>Notions used to state the properties\<close>

text \<open>
  A well-formed emoji store: a \<^verbatim>\<open>Map\<close> has each key once, and every emoji is kept
  under its own identifier.
\<close>

definition wf_store :: "(snowflake, 'f emoji) collection \<Rightarrow> bool" where
  "wf_store m = (distinct (map fst m) \<and> list_all (\<lambda>kv. emoji_id (snd kv) = fst kv) m)"

text \<open>
  What one pass of the first loop emits for the entry \<open>r\<close> when the store is \<open>store\<close>,
  and the store it leaves.
\<close>

definition entry_events ::
  "('f emoji \<Rightarrow> 'f raw_emoji \<Rightarrow> bool) \<Rightarrow> (snowflake, 'f emoji) collection
    \<Rightarrow> 'f raw_emoji \<Rightarrow> 'f event list" where
  "entry_events equals store r =
     (case coll_get store (raw_id r) of
        Some c \<Rightarrow> if equals c r then [] else [EmojiUpdated c (patch_emoji c r)]
      | None \<Rightarrow> [EmojiCreated (new_emoji r)])"

definition entry_store ::
  "('f emoji \<Rightarrow> 'f raw_emoji \<Rightarrow> bool) \<Rightarrow> (snowflake, 'f emoji) collection
    \<Rightarrow> 'f raw_emoji \<Rightarrow> (snowflake, 'f emoji) collection" where
  "entry_store equals store r =
     (case coll_get store (raw_id r) of
        Some c \<Rightarrow> if equals c r then store else coll_set store (raw_id r) (patch_emoji c r)
      | None \<Rightarrow> coll_set store (raw_id r) (new_emoji r))"

text \<open>The events of the whole first loop, entry by entry.\<close>

fun loop_events ::
  "('f emoji \<Rightarrow> 'f raw_emoji \<Rightarrow> bool) \<Rightarrow> (snowflake, 'f emoji) collection
    \<Rightarrow> 'f raw_emoji list \<Rightarrow> 'f event list" where
  "loop_events equals store [] = []"
| "loop_events equals store (r # rest) =
     entry_events equals store r @ loop_events equals (entry_store equals store r) rest"

text \<open>
  The cached entries whose identifier is absent from the incoming list, in cache order, and
  the store once both loops have run.
\<close>

definition stale ::
  "(snowflake, 'f emoji) collection \<Rightarrow> 'f raw_emoji list \<Rightarrow> (snowflake, 'f emoji) collection"
  where
  "stale store A = filter (\<lambda>kv. fst kv \<notin> raw_id ` set A) store"

definition synced_store ::
  "('f emoji \<Rightarrow> 'f raw_emoji \<Rightarrow> bool) \<Rightarrow> (snowflake, 'f emoji) collection
    \<Rightarrow> 'f raw_emoji list \<Rightarrow> (snowflake, 'f emoji) collection" where
  "synced_store equals store A =
     filter (\<lambda>kv. fst kv \<notin> emoji_id ` set (coll_values (stale store A)))
       (foldl (entry_store equals) store A)"

text \<open>
  The emoji store of a guild of the client, if the guild is cached and has one: the
  negation of the guard \<^verbatim>\<open>!guild || !guild.emojis\<close>.
\<close>

definition emoji_store :: "'f client \<Rightarrow> snowflake \<Rightarrow> (snowflake, 'f emoji) collection option"
  where
  "emoji_store cl gid =
     (case coll_get (guilds cl) gid of None \<Rightarrow> None | Some g \<Rightarrow> guild_emojis g)"

text \<open>
  A store is in sync with a list when every entry of the list has a cached emoji that
  \<open>equals\<close> it.
\<close>

definition in_sync ::
  "('f emoji \<Rightarrow> 'f raw_emoji \<Rightarrow> bool) \<Rightarrow> (snowflake, 'f emoji) collection
    \<Rightarrow> 'f raw_emoji list \<Rightarrow> bool" where
  "in_sync equals store A =
     list_all (\<lambda>r. case coll_get store (raw_id r) of None \<Rightarrow> False | Some c \<Rightarrow> equals c r) A"

text \<open>The events one call of \<^verbatim>\<open>handle\<close> emits.\<close>

definition emitted ::
  "('f emoji \<Rightarrow> 'f raw_emoji \<Rightarrow> bool) \<Rightarrow> 'f client \<Rightarrow> 'f emojis_update \<Rightarrow> 'f event list"
  where
  "emitted equals cl data = snd (GuildEmojisUpdate_handle equals cl data)"

text \<open>
  One possible \<^verbatim>\<open>equals\<close>, used in the examples: the identifier and all the fields
  agree.
\<close>

definition equals_all_fields :: "'f emoji \<Rightarrow> 'f raw_emoji \<Rightarrow> bool" where
  "equals_all_fields c r = (emoji_id c = raw_id r \<and> emoji_fields c = raw_fields r)"

text \<open>
  An example: guild \<open>g\<close> caches the emojis \<open>a\<close>, \<open>b\<close> and \<open>c\<close>; the incoming
  list brings a new \<open>d\<close>, a changed \<open>c\<close> and an unchanged \<open>a\<close>.
\<close>

definition ex_store :: "(snowflake, string emoji) collection" where
  "ex_store =
     [(Some ''a'', \<lparr>emoji_id = Some ''a'', emoji_fields = ''smile''\<rparr>),
      (Some ''b'', \<lparr>emoji_id = Some ''b'', emoji_fields = ''wave''\<rparr>),
      (Some ''c'', \<lparr>emoji_id = Some ''c'', emoji_fields = ''old''\<rparr>)]"

definition ex_client :: "string client" where
  "ex_client = \<lparr>guilds = [(Some ''g'', \<lparr>guild_emojis = Some ex_store\<rparr>)]\<rparr>"

definition ex_update :: "string emojis_update" where
  "ex_update =
     \<lparr>guild_id = Some ''g'',
      emojis = [\<lparr>raw_id = Some ''d'', raw_fields = ''fresh''\<rparr>,
                \<lparr>raw_id = Some ''c'', raw_fields = ''new''\<rparr>,
                \<lparr>raw_id = Some ''a'', raw_fields = ''smile''\<rparr>]\<rparr>"

text \<open>
  The order "all updates, then all creations, then all deletions" of an event list.
\<close>

fun rank :: "'f event \<Rightarrow> nat" where
  "rank (EmojiUpdated _ _) = 0"
| "rank (EmojiCreated _) = 1"
| "rank (EmojiDeleted _) = 2"
| "rank (Debug _) = 3"

definition updates_creates_deletes :: "'f event list \<Rightarrow> bool" where
  "updates_creates_deletes evs = sorted (map rank evs)"

text \<open>The example client after the update, and its emoji store then.\<close>

definition ex_client_after :: "string client" where
  "ex_client_after = fst (GuildEmojisUpdate_handle equals_all_fields ex_client ex_update)"

definition ex_store_after :: "(snowflake, string emoji) collection" where
  "ex_store_after =
     [(Some ''a'', \<lparr>emoji_id = Some ''a'', emoji_fields = ''smile''\<rparr>),
      (Some ''c'', \<lparr>emoji_id = Some ''c'', emoji_fields = ''new''\<rparr>),
      (Some ''d'', \<lparr>emoji_id = Some ''d'', emoji_fields = ''fresh''\<rparr>)]"




text \<open>An update for a guild the client has not cached.\<close>

definition ex_unknown_guild_update :: "string emojis_update" where
  "ex_unknown_guild_update =
     \<lparr>guild_id = Some ''h'',
      emojis = [\<lparr>raw_id = Some ''d'', raw_fields = ''fresh''\<rparr>]\<rparr>"


section \<open>Collector (the second class of structures/NewsChannel.js)\<close>

subsection \<open>The client's timers (Client.js: setTimeout, clearTimeout)\<close>

text \<open>
  Time is a clock in milliseconds. A one-shot timer of the runtime is identified by its
  \<^verbatim>\<open>Timeout\<close> object (here a number), fires when the clock reaches \<open>due\<close>, and then
  runs its callback. The callbacks a collector registers are
  \<^verbatim>\<open>() => this.stop('time')\<close> and \<^verbatim>\<open>() => this.stop('idle')\<close>: the callback
  \<open>Some r\<close> is \<^verbatim>\<open>() => this.stop(r)\<close> of the collector, and \<open>None\<close> is a function
  registered by other code, which does not touch the collector.
\<close>

record timer =
  timer_handle :: nat
  due :: nat
  callback :: "string option"

text \<open>
  The timer state: the clock, the number of the next \<^verbatim>\<open>Timeout\<close> object, the armed
  timers of the runtime in creation order, and the client's set \<^verbatim>\<open>_timeouts\<close>.
\<close>

record timers =
  clock :: nat
  fresh :: nat
  pending :: "timer list"
  timeouts :: "nat list"

text \<open>
  The runtime's \<^verbatim>\<open>setTimeout\<close> takes a delay outside \<open>1 .. 2\<^sup>3\<^sup>1 - 1\<close> for 1.
\<close>

definition node_delay :: "nat \<Rightarrow> nat" where
  "node_delay d = (if 1 \<le> d \<and> d \<le> 2147483647 then d else 1)"

text \<open>
  \<^verbatim>\<open>Client.setTimeout(fn, delay)\<close>: arm a timer, add it to \<^verbatim>\<open>_timeouts\<close>, return it.
\<close>

definition client_setTimeout :: "string option \<Rightarrow> nat \<Rightarrow> timers \<Rightarrow> nat \<times> timers" where
  "client_setTimeout fn delay cl =
     (let i = fresh cl
      in (i, cl\<lparr>fresh := Suc i,
                pending := pending cl
                  @ [\<lparr>timer_handle = i, due = clock cl + node_delay delay,
                      callback = fn\<rparr>],
                timeouts := (if i \<in> set (timeouts cl) then timeouts cl
                             else timeouts cl @ [i])\<rparr>))"

text \<open>
  \<^verbatim>\<open>Client.clearTimeout(timeout)\<close>: disarm the timer (nothing happens when it has fired
  or was cleared before) and delete it from \<^verbatim>\<open>_timeouts\<close>.
\<close>

definition client_clearTimeout :: "nat \<Rightarrow> timers \<Rightarrow> timers" where
  "client_clearTimeout i cl =
     cl\<lparr>pending := filter (\<lambda>tm. timer_handle tm \<noteq> i) (pending cl),
        timeouts := removeAll i (timeouts cl)\<rparr>"

subsection \<open>The collector\<close>

text \<open>
  What the collector emits, in order: \<^verbatim>\<open>collect\<close> with the value,
  \<^verbatim>\<open>fullCollect\<close> with the event's arguments, \<^verbatim>\<open>end\<close> with the accumulation and the
  reason. A call of the \<^verbatim>\<open>cleanup()\<close> hook, whose body belongs to the subclasses, is
  recorded in the same trace.
\<close>

datatype ('a, 'k, 'v) collector_event =
    EvCollect 'v
  | EvFullCollect 'a
  | EvCleanup
  | EvEnd "('k, 'v) collection" string

fun is_end :: "('a, 'k, 'v) collector_event \<Rightarrow> bool" where
  "is_end (EvEnd _ _) = True"
| "is_end _ = False"

text \<open>
  The fields of a \<^verbatim>\<open>Collector\<close>: \<^verbatim>\<open>options.time\<close> and \<^verbatim>\<open>options.idle\<close> (\<open>None\<close>
  when not given), \<^verbatim>\<open>collected\<close>, \<^verbatim>\<open>ended\<close>, \<^verbatim>\<open>_timeout\<close> and \<^verbatim>\<open>_idletimeout\<close>
  (\<open>None\<close> for \<^verbatim>\<open>null\<close>), the timers of its client, and the trace of what it emitted.
\<close>

record ('a, 'k, 'v) collector =
  opt_time :: "nat option"
  opt_idle :: "nat option"
  collected :: "('k, 'v) collection"
  ended :: bool
  timeout_field :: "nat option"
  idletimeout_field :: "nat option"
  client_timers :: timers
  trace :: "('a, 'k, 'v) collector_event list"

text \<open>
  The methods a subclass supplies, as functions of the collector and the arguments of the
  event: \<^verbatim>\<open>handle\<close> returns \<^verbatim>\<open>{key, value}\<close> or \<^verbatim>\<open>null\<close>, \<^verbatim>\<open>postCheck\<close> a reason
  or \<^verbatim>\<open>null\<close>; \<^verbatim>\<open>filter\<close> is the user's predicate on the arguments and the
  accumulation.
\<close>

record ('a, 'k, 'v) hooks =
  handle_hook :: "('a, 'k, 'v) collector \<Rightarrow> 'a \<Rightarrow> ('k \<times> 'v) option"
  filter_hook :: "'a \<Rightarrow> ('k, 'v) collection \<Rightarrow> bool"
  postCheck_hook :: "('a, 'k, 'v) collector \<Rightarrow> 'a \<Rightarrow> string option"

text \<open>JavaScript truthiness of an optional number and of an optional string.\<close>

definition truthy_num :: "nat option \<Rightarrow> bool" where
  "truthy_num n = (case n of None \<Rightarrow> False | Some d \<Rightarrow> d \<noteq> 0)"

definition truthy_str :: "string option \<Rightarrow> bool" where
  "truthy_str s = (case s of None \<Rightarrow> False | Some r \<Rightarrow> r \<noteq> [])"

text \<open>A delay read from the options: \<^verbatim>\<open>undefined\<close> is taken by the runtime like 0.\<close>

definition delay_of :: "nat option \<Rightarrow> nat" where
  "delay_of n = (case n of None \<Rightarrow> 0 | Some d \<Rightarrow> d)"

definition emit :: "('a, 'k, 'v) collector_event \<Rightarrow> ('a, 'k, 'v) collector \<Rightarrow> ('a, 'k, 'v) collector"
  where
  "emit e c = c\<lparr>trace := trace c @ [e]\<rparr>"

text \<open>
  The constructor: no item, not ended, and a timer for each of \<^verbatim>\<open>options.time\<close> and
  \<^verbatim>\<open>options.idle\<close> that is truthy.
\<close>

definition new_collector :: "timers \<Rightarrow> nat option \<Rightarrow> nat option \<Rightarrow> ('a, 'k, 'v) collector" where
  "new_collector cl time idle =
     (let c0 = \<lparr>opt_time = time, opt_idle = idle, collected = [], ended = False,
                timeout_field = None, idletimeout_field = None, client_timers = cl,
                trace = []\<rparr>;
          c1 = (if truthy_num time
                then (let (i, cl1) = client_setTimeout (Some ''time'') (delay_of time) (client_timers c0)
                      in c0\<lparr>timeout_field := Some i, client_timers := cl1\<rparr>)
                else c0)
      in if truthy_num idle
         then (let (i, cl2) = client_setTimeout (Some ''idle'') (delay_of idle) (client_timers c1)
               in c1\<lparr>idletimeout_field := Some i, client_timers := cl2\<rparr>)
         else c1)"

text \<open>
  \<^verbatim>\<open>stop(reason)\<close>; \<open>None\<close> is a call without argument, which takes \<^verbatim>\<open>'user'\<close>.
\<close>

definition stop :: "string option \<Rightarrow> ('a, 'k, 'v) collector \<Rightarrow> ('a, 'k, 'v) collector" where
  "stop reason_arg c =
     (let reason = (case reason_arg of None \<Rightarrow> ''user'' | Some r \<Rightarrow> r)
      in if ended c then c
         else
           (let c1 = (case timeout_field c of
                        Some i \<Rightarrow> c\<lparr>client_timers := client_clearTimeout i (client_timers c),
                                    timeout_field := None\<rparr>
                      | None \<Rightarrow> c);
                c2 = (case idletimeout_field c1 of
                        Some i \<Rightarrow> c1\<lparr>client_timers := client_clearTimeout i (client_timers c1),
                                     idletimeout_field := None\<rparr>
                      | None \<Rightarrow> c1);
                c3 = c2\<lparr>ended := True\<rparr>;
                c4 = emit EvCleanup c3
            in emit (EvEnd (collected c4) reason) c4))"

text \<open>
  \<^verbatim>\<open>_handle(...args)\<close>, the listener. It does not look at \<^verbatim>\<open>ended\<close>.
\<close>

definition collector_handle ::
  "('a, 'k, 'v) hooks \<Rightarrow> 'a \<Rightarrow> ('a, 'k, 'v) collector \<Rightarrow> ('a, 'k, 'v) collector" where
  "collector_handle h args c =
     (let collect = handle_hook h c args;
          c1 = (case collect of
                  Some (key, val) \<Rightarrow>
                    if filter_hook h args (collected c)
                    then
                      (let c2 = c\<lparr>collected := coll_set (collected c) key val\<rparr>;
                           c3 = emit (EvCollect val) c2;
                           c4 = emit (EvFullCollect args) c3
                       in case idletimeout_field c4 of
                            Some i \<Rightarrow>
                              (let cl1 = client_clearTimeout i (client_timers c4);
                                   (j, cl2) = client_setTimeout (Some ''idle'') (delay_of (opt_idle c4)) cl1
                               in c4\<lparr>idletimeout_field := Some j, client_timers := cl2\<rparr>)
                          | None \<Rightarrow> c4)
                    else c
                | None \<Rightarrow> c);
          post = postCheck_hook h c1 args
      in if truthy_str post then stop post c1 else c1)"

subsection \<open>Time passing\<close>

text \<open>
  The armed timer that fires next when the clock moves to \<open>t\<close>: the one due first among
  those due by \<open>t\<close>, the older one on a tie.
\<close>

definition next_due :: "nat \<Rightarrow> timer list \<Rightarrow> timer option" where
  "next_due t ps =
     (case filter (\<lambda>tm. due tm \<le> t) ps of
        [] \<Rightarrow> None
      | tm # rest \<Rightarrow> Some (foldl (\<lambda>a b. if due b < due a then b else a) tm rest))"

text \<open>
  A timer fires: the runtime disarms it, the clock stands at its due time, and the wrapper
  of \<^verbatim>\<open>Client.setTimeout\<close> runs the callback and deletes the timer from \<^verbatim>\<open>_timeouts\<close>.
\<close>

definition fire :: "timer \<Rightarrow> ('a, 'k, 'v) collector \<Rightarrow> ('a, 'k, 'v) collector" where
  "fire tm c =
     (let cl = client_timers c;
          c1 = c\<lparr>client_timers :=
                   cl\<lparr>pending := filter (\<lambda>x. timer_handle x \<noteq> timer_handle tm) (pending cl),
                      clock := max (clock cl) (due tm)\<rparr>\<rparr>;
          c2 = (case callback tm of
                  Some r \<Rightarrow> stop (Some r) c1
                | None \<Rightarrow> c1)
      in c2\<lparr>client_timers :=
               (client_timers c2)\<lparr>timeouts := removeAll (timer_handle tm)
                                                (timeouts (client_timers c2))\<rparr>\<rparr>)"

text \<open>
  The clock moves to \<open>t\<close> with no event delivered meanwhile: the timers due by then fire
  one after the other.
\<close>

function advance :: "nat \<Rightarrow> ('a, 'k, 'v) collector \<Rightarrow> ('a, 'k, 'v) collector" where
  "advance t c =
     (case next_due t (pending (client_timers c)) of
        None \<Rightarrow> c\<lparr>client_timers := (client_timers c)\<lparr>clock := max (clock (client_timers c)) t\<rparr>\<rparr>
      | Some tm \<Rightarrow> advance t (fire tm c))"
  by pat_completeness auto
termination
proof (relation "measure (\<lambda>(t, c). length (pending (client_timers c)))")
  show "wf (measure (\<lambda>(t, c). length (pending (client_timers c))))" by simp
next
  fix t :: nat and c :: "('a, 'k, 'v) collector" and tm
  assume nd: "next_due t (pending (client_timers c)) = Some tm"
  let ?ps = "pending (client_timers c)"
  let ?rest = "filter (\<lambda>x. timer_handle x \<noteq> timer_handle tm) ?ps"
  have fold_mem: "foldl (\<lambda>a b. if due b < due a then b else a) x xs \<in> set (x # xs)"
    for x :: timer and xs
    by (induction xs arbitrary: x) auto
  obtain x xs where due: "filter (\<lambda>tm. due tm \<le> t) ?ps = x # xs"
    and tm: "tm = foldl (\<lambda>a b. if due b < due a then b else a) x xs"
    using nd by (auto simp: next_due_def split: list.splits)
  have "tm \<in> set (filter (\<lambda>tm. due tm \<le> t) ?ps)"
    unfolding due tm by (rule fold_mem)
  then have mem: "tm \<in> set ?ps" by simp
  have less: "length ?rest < length ?ps"
    using mem by (simp add: length_filter_less)
  have clear_le: "length (pending (client_clearTimeout i cl)) \<le> length (pending cl)"
    for i cl
    by (simp add: client_clearTimeout_def)
  have stop_le: "length (pending (client_timers (stop r d))) \<le> length (pending (client_timers d))"
    for r and d :: "('a, 'k, 'v) collector"
  proof (cases "ended d")
    case True
    then show ?thesis by (simp add: stop_def)
  next
    case False
    show ?thesis
    proof (cases "timeout_field d")
      case None
      then show ?thesis
        using False clear_le by (cases "idletimeout_field d") (simp_all add: stop_def emit_def)
    next
      case (Some i)
      have two: "length (pending (client_clearTimeout j (client_clearTimeout i (client_timers d))))
          \<le> length (pending (client_timers d))" for j
        by (rule le_trans [OF clear_le clear_le])
      show ?thesis
        using False Some clear_le [of i "client_timers d"] two
        by (cases "idletimeout_field d") (simp_all add: stop_def emit_def)
    qed
  qed
  have "length (pending (client_timers (fire tm c))) \<le> length ?rest"
  proof (cases "callback tm")
    case None
    then show ?thesis by (simp add: fire_def Let_def)
  next
    case (Some r)
    then show ?thesis
      using stop_le [of "Some r"
          "c\<lparr>client_timers := (client_timers c)\<lparr>pending := ?rest,
             clock := max (clock (client_timers c)) (due tm)\<rparr>\<rparr>"]
      by (simp add: fire_def Let_def)
  qed
  then show "((t, fire tm c), (t, c)) \<in> measure (\<lambda>(t, c). length (pending (client_timers c)))"
    using less by simp
qed

declare advance.simps [simp del]

subsection \<open>A collector's lifetime\<close>

text \<open>
  What can happen to a collector: \<^verbatim>\<open>stop\<close> is called (by a consumer, with or without a
  reason), an event is delivered to its listener, or time passes.
\<close>

datatype 'a action = Stop "string option" | Deliver 'a | Advance nat

fun step :: "('a, 'k, 'v) hooks \<Rightarrow> ('a, 'k, 'v) collector \<Rightarrow> 'a action \<Rightarrow> ('a, 'k, 'v) collector"
  where
  "step h c (Stop r) = stop r c"
| "step h c (Deliver args) = collector_handle h args c"
| "step h c (Advance t) = advance t c"

definition run :: "('a, 'k, 'v) hooks \<Rightarrow> 'a action list \<Rightarrow> ('a, 'k, 'v) collector \<Rightarrow> ('a, 'k, 'v) collector"
  where
  "run h acts c = foldl (step h) c acts"

text \<open>A client whose clock stands at \<open>now\<close>, with no timer armed.\<close>

definition new_client :: "nat \<Rightarrow> timers" where
  "new_client now = \<lparr>clock = now, fresh = 0, pending = [], timeouts = []\<rparr>"

subsection \<open>Notions used to state the properties of the collector\<close>

text \<open>Clearing the timer a field holds, if it holds one; the reason \<^verbatim>\<open>stop\<close> ends with.\<close>

definition clear_opt :: "nat option \<Rightarrow> timers \<Rightarrow> timers" where
  "clear_opt f cl = (case f of None \<Rightarrow> cl | Some i \<Rightarrow> client_clearTimeout i cl)"

definition reason_of :: "string option \<Rightarrow> string" where
  "reason_of r = (case r of None \<Rightarrow> ''user'' | Some x \<Rightarrow> x)"

text \<open>
  The first half of \<^verbatim>\<open>_handle\<close>, up to the call of \<^verbatim>\<open>postCheck\<close>: whether the event is
  collected, and the collector after that.
\<close>

definition collects :: "('a, 'k, 'v) hooks \<Rightarrow> 'a \<Rightarrow> ('a, 'k, 'v) collector \<Rightarrow> bool" where
  "collects h args c =
     (handle_hook h c args \<noteq> None \<and> filter_hook h args (collected c))"

definition collect_part ::
  "('a, 'k, 'v) hooks \<Rightarrow> 'a \<Rightarrow> ('a, 'k, 'v) collector \<Rightarrow> ('a, 'k, 'v) collector" where
  "collect_part h args c =
     (case handle_hook h c args of
        None \<Rightarrow> c
      | Some kv \<Rightarrow>
          if filter_hook h args (collected c)
          then c\<lparr>collected := coll_set (collected c) (fst kv) (snd kv),
                 trace := trace c @ [EvCollect (snd kv), EvFullCollect args],
                 idletimeout_field :=
                   (case idletimeout_field c of None \<Rightarrow> None
                    | Some i \<Rightarrow> Some (fresh (client_timers c))),
                 client_timers :=
                   (case idletimeout_field c of None \<Rightarrow> client_timers c
                    | Some i \<Rightarrow>
                        snd (client_setTimeout (Some ''idle'') (delay_of (opt_idle c))
                               (client_clearTimeout i (client_timers c))))\<rparr>
          else c)"

text \<open>
  The invariant of a collector created on a client whose next timer number was \<open>F\<close>:
  every armed timer is either one of other code, armed before the collector was created,
  or a timer of the collector that one of its two fields holds; \<^verbatim>\<open>end\<close> was emitted
  once if the collector has ended and never otherwise; an ended collector holds no timer;
  the timers the fields hold were armed by the collector, and are not the same one.
\<close>

definition timer_ok :: "nat \<Rightarrow> nat option \<Rightarrow> nat option \<Rightarrow> timer \<Rightarrow> bool" where
  "timer_ok F a b tm =
     (if callback tm = None then timer_handle tm < F
      else a = Some (timer_handle tm) \<or> b = Some (timer_handle tm))"

definition collector_inv :: "nat \<Rightarrow> ('a, 'k, 'v) collector \<Rightarrow> bool" where
  "collector_inv F c =
     (list_all (timer_ok F (timeout_field c) (idletimeout_field c))
        (pending (client_timers c))
      \<and> length (filter is_end (trace c)) = (if ended c then 1 else 0)
      \<and> (ended c \<longrightarrow> timeout_field c = None \<and> idletimeout_field c = None)
      \<and> (\<forall>a \<in> set_option (timeout_field c).
            F \<le> a \<and> a < fresh (client_timers c) \<and> idletimeout_field c \<noteq> Some a)
      \<and> (\<forall>b \<in> set_option (idletimeout_field c). F \<le> b \<and> b < fresh (client_timers c)))"

text \<open>
  The timers of a collector that has not ended: given a truthy \<^verbatim>\<open>options.time\<close>, the
  timer of callback \<^verbatim>\<open>() => this.stop('time')\<close> due at \<open>D\<close> is armed and held by
  \<^verbatim>\<open>_timeout\<close>; given a truthy \<^verbatim>\<open>options.idle\<close>, a timer of callback
  \<^verbatim>\<open>() => this.stop('idle')\<close> is armed and held by \<^verbatim>\<open>_idletimeout\<close>, due no
  later than \<^verbatim>\<open>options.idle\<close> after the present time.
\<close>

definition time_armed :: "nat \<Rightarrow> ('a, 'k, 'v) collector \<Rightarrow> bool" where
  "time_armed D c =
     (list_ex (\<lambda>tm. callback tm = Some ''time'' \<and> due tm = D
                 \<and> timeout_field c = Some (timer_handle tm))
        (pending (client_timers c)))"

definition idle_armed :: "('a, 'k, 'v) collector \<Rightarrow> bool" where
  "idle_armed c =
     (list_ex (\<lambda>tm. callback tm = Some ''idle''
                 \<and> due tm \<le> clock (client_timers c) + node_delay (delay_of (opt_idle c))
                 \<and> idletimeout_field c = Some (timer_handle tm))
        (pending (client_timers c)))"

definition armed :: "nat \<Rightarrow> ('a, 'k, 'v) collector \<Rightarrow> bool" where
  "armed D c =
     (ended c \<or> ((truthy_num (opt_time c) \<longrightarrow> time_armed D c)
               \<and> (truthy_num (opt_idle c) \<longrightarrow> idle_armed c)))"

text \<open>A timer of the collector, as opposed to one of other code, is due by \<open>t\<close>.\<close>

definition own_due :: "nat \<Rightarrow> ('a, 'k, 'v) collector \<Rightarrow> bool" where
  "own_due t c =
     list_ex (\<lambda>tm. callback tm \<noteq> None \<and> due tm \<le> t) (pending (client_timers c))"

text \<open>The timers of a client are those of other code, numbered below the next number.\<close>

definition foreign :: "timers \<Rightarrow> bool" where
  "foreign cl = list_all (\<lambda>tm. callback tm = None \<and> timer_handle tm < fresh cl) (pending cl)"

text \<open>
  A collector that has not ended and was given a truthy \<^verbatim>\<open>options.idle\<close> holds an idle
  timer.
\<close>

definition idle_held :: "('a, 'k, 'v) collector \<Rightarrow> bool" where
  "idle_held c = (ended c \<or> \<not> truthy_num (opt_idle c) \<or> idletimeout_field c \<noteq> None)"

text \<open>
  An example subclass over string events: \<^verbatim>\<open>handle\<close> collects every event but
  \<open>skip\<close>, keyed by itself; the filter rejects \<open>reject\<close>; \<^verbatim>\<open>postCheck\<close> ends the
  collector with \<open>limit\<close> on \<open>last\<close> and on \<open>skip\<close>. A lifetime with several reasons
  to end, and a collector with \<^verbatim>\<open>idle: 100\<close> created at time 0. A client at time
  1000 on which other code has armed a timer due at 1020, and a collector with
  \<^verbatim>\<open>time: 50\<close> created on it.
\<close>

definition ex_hooks :: "(string, string, string) hooks" where
  "ex_hooks =
     \<lparr>handle_hook = (\<lambda>c x. if x = ''skip'' then None else Some (x, x)),
      filter_hook = (\<lambda>x col. x \<noteq> ''reject''),
      postCheck_hook = (\<lambda>c x. if x = ''last'' \<or> x = ''skip'' then Some ''limit'' else None)\<rparr>"

definition ex_lifetime :: "string action list" where
  "ex_lifetime = [Advance 90, Deliver ''m1'', Advance 190, Stop None, Deliver ''last'', Advance 600]"

definition ex_idle_collector :: "(string, string, string) collector" where
  "ex_idle_collector = new_collector (new_client 0) None (Some 100)"

definition ex_busy_client :: timers where
  "ex_busy_client =
     \<lparr>clock = 1000, fresh = 1,
      pending = [\<lparr>timer_handle = 0, due = 1020, callback = None\<rparr>],
      timeouts = [0]\<rparr>"

definition ex_timed_collector :: "(string, string, string) collector" where
  "ex_timed_collector = new_collector ex_busy_client (Some 50) None"

section \<open>Message partial resolution (GenericAction in unnamed/part_001, Message.js)\<close>

text \<open>
  A message: of the fields the constructor and \<^verbatim>\<open>setup\<close> fill, the model keeps the
  identifier, the channel (by its identifier), \<^verbatim>\<open>deleted\<close>, \<^verbatim>\<open>content\<close> and
  \<^verbatim>\<open>author\<close> (the user, by identifier); \<open>None\<close> is \<^verbatim>\<open>null\<close>.
\<close>

record message =
  msg_id :: snowflake
  msg_channel :: snowflake
  deleted :: bool
  content :: "string option"
  author :: "string option"

text \<open>
  The raw data the action receives or builds: an object of which any field may be missing.
  \<^verbatim>\<open>data.message\<close> is a message object, \<^verbatim>\<open>data.author\<close> a raw user.
\<close>

record raw_data =
  data_id :: snowflake
  data_message_id :: snowflake
  data_message :: "message option"
  data_channel_id :: snowflake
  data_guild_id :: snowflake
  data_content :: "string option"
  data_author :: "string option"

text \<open>
  A message store (\<^verbatim>\<open>channel.messages\<close>, the \<^verbatim>\<open>manager\<close> of \<^verbatim>\<open>getPayload\<close>). The
  code can store \<^verbatim>\<open>undefined\<close> under a key, so a value is optional; \<^verbatim>\<open>get\<close> gives
  \<^verbatim>\<open>undefined\<close> for a missing key and for such a value alike.
\<close>

type_synonym manager = "(snowflake, message option) collection"

definition manager_get :: "manager \<Rightarrow> snowflake \<Rightarrow> message option" where
  "manager_get m i = (case coll_get m i of Some (Some e) \<Rightarrow> Some e | _ \<Rightarrow> None)"

text \<open>
  A channel, with the identifier of its guild if it has one, and what the action reads of
  its client: \<^verbatim>\<open>options.partials\<close> and the channel cache.
\<close>

record channel =
  ch_id :: snowflake
  ch_guild :: "string option"
  messages :: manager

record action_client =
  partials :: "string list"
  channels :: "(snowflake, channel) collection"

datatype js_error = TypeError

text \<open>The class passed as \<^verbatim>\<open>cls\<close>: \<^verbatim>\<open>Message\<close> or anything else.\<close>

datatype cls = MessageClass | OtherClass

text \<open>
  \<^verbatim>\<open>new Message(channel, data, client)\<close>. \<^verbatim>\<open>setup\<close> reads \<^verbatim>\<open>this.guild\<close>, that is
  \<^verbatim>\<open>this.channel.guild\<close>, which throws a TypeError when the channel is \<^verbatim>\<open>undefined\<close>.
  \<^verbatim>\<open>data.content || null\<close> turns the empty string into \<^verbatim>\<open>null\<close> as well. What
  \<^verbatim>\<open>setup\<close> calls outside the source files (\<^verbatim>\<open>MessageMentions\<close>, \<^verbatim>\<open>Guild.member\<close>)
  is taken to return normally.
\<close>

definition new_Message :: "channel option \<Rightarrow> raw_data \<Rightarrow> js_error + message" where
  "new_Message ch data =
     (case ch of
        None \<Rightarrow> Inl TypeError
      | Some c \<Rightarrow>
          Inr \<lparr>msg_id = data_id data,
               msg_channel = ch_id c,
               deleted = False,
               content = (case data_content data of
                            None \<Rightarrow> None
                          | Some s \<Rightarrow> if s = [] then None else Some s),
               author = data_author data\<rparr>)"

text \<open>
  \<^verbatim>\<open>get partial()\<close>: \<^verbatim>\<open>typeof this.content !== 'string' || !this.author\<close>.
\<close>

definition partial :: "message \<Rightarrow> bool" where
  "partial m = (content m = None \<or> author m = None)"

text \<open>
  \<^verbatim>\<open>getPayload(data, manager, id, partialType, cache, cls)\<close>. It returns the entity or
  \<^verbatim>\<open>undefined\<close>, and the store as it leaves it, or throws. \<open>patch_of e\<close> is the
  \<^verbatim>\<open>_patch\<close> method of the entity \<open>e\<close>, if it has one, as the function from the data
  to the patched entity; it patches in place, so the store holds the patched entity
  afterwards. (The \<^verbatim>\<open>Message\<close> class of this repository has no \<^verbatim>\<open>_patch\<close>.)
\<close>

definition getPayload ::
  "action_client \<Rightarrow> (message \<Rightarrow> (raw_data \<Rightarrow> message) option) \<Rightarrow> raw_data \<Rightarrow> manager
    \<Rightarrow> snowflake \<Rightarrow> string \<Rightarrow> bool \<Rightarrow> cls \<Rightarrow> js_error + (message option \<times> manager)" where
  "getPayload cl patch_of data manager i partialType cache c =
     (let existing = manager_get manager i
      in if existing = None \<and> partialType \<in> set (partials cl)
         then
           (let existing = manager_get manager (or_id i (data_id data))
            in case existing of
                 Some e \<Rightarrow>
                   (case patch_of e of
                      Some p \<Rightarrow>
                        if cache
                        then Inr (Some (p data),
                                  coll_set manager (or_id i (data_id data)) (Some (p data)))
                        else Inr (Some e, manager)
                    | None \<Rightarrow> Inr (Some e, manager))
               | None \<Rightarrow>
                   (case (if c = MessageClass
                          then map_sum (\<lambda>err. err) Some
                                 (new_Message (coll_get (channels cl) (data_channel_id data)) data)
                          else Inr None) of
                      Inl err \<Rightarrow> Inl err
                    | Inr entry \<Rightarrow>
                        if cache
                        then (if truthy_id i then Inr (entry, coll_set manager i entry)
                              else (case entry of
                                      None \<Rightarrow> Inl TypeError
                                    | Some m \<Rightarrow> Inr (entry, coll_set manager (msg_id m) entry)))
                        else Inr (entry, manager)))
         else Inr (existing, manager))"

text \<open>
  \<^verbatim>\<open>getMessage(data, channel, cache)\<close>; \<open>MESSAGE\<close> is \<^verbatim>\<open>PartialTypes.MESSAGE\<close>, a
  constant of util/Constants, which is not among the source files.
\<close>

definition getMessage ::
  "action_client \<Rightarrow> (message \<Rightarrow> (raw_data \<Rightarrow> message) option) \<Rightarrow> string \<Rightarrow> raw_data
    \<Rightarrow> channel \<Rightarrow> bool \<Rightarrow> js_error + (message option \<times> manager)" where
  "getMessage cl patch_of MESSAGE data chan cache =
     (let i = or_id (data_message_id data) (data_id data)
      in case data_message data of
           Some m \<Rightarrow> Inr (Some m, messages chan)
         | None \<Rightarrow>
             getPayload cl patch_of
               \<lparr>data_id = i, data_message_id = None, data_message = None,
                data_channel_id = ch_id chan,
                data_guild_id = or_id (data_guild_id data) (ch_guild chan),
                data_content = None, data_author = None\<rparr>
               (messages chan) i MESSAGE cache MessageClass)"

text \<open>
  The stub of the message \<open>M\<close> in a channel: no content, no author.
\<close>

definition stub_message :: "snowflake \<Rightarrow> channel \<Rightarrow> message" where
  "stub_message M chan =
     \<lparr>msg_id = M, msg_channel = ch_id chan, deleted = False, content = None, author = None\<rparr>"

subsection \<open>Examples\<close>

text \<open>
  A channel \<open>c1\<close> that caches message \<open>m1\<close>, known to a client that allows message
  partials; a \<^verbatim>\<open>_patch\<close> that takes the content of the data; an event about \<open>m1\<close>
  and one about a message \<open>m2\<close> that is not cached.
\<close>

definition ex_message :: message where
  "ex_message =
     \<lparr>msg_id = Some ''m1'', msg_channel = Some ''c1'', deleted = False,
      content = Some ''hello'', author = Some ''u1''\<rparr>"

definition ex_channel :: channel where
  "ex_channel =
     \<lparr>ch_id = Some ''c1'', ch_guild = Some ''g'', messages = [(Some ''m1'', Some ex_message)]\<rparr>"

definition ex_action_client :: action_client where
  "ex_action_client = \<lparr>partials = [''MESSAGE''], channels = [(Some ''c1'', ex_channel)]\<rparr>"

definition ex_patch :: "message \<Rightarrow> (raw_data \<Rightarrow> message) option" where
  "ex_patch e = Some (\<lambda>data. e\<lparr>content := data_content data\<rparr>)"

definition ex_data :: "string \<Rightarrow> raw_data" where
  "ex_data m =
     \<lparr>data_id = None, data_message_id = Some m, data_message = None,
      data_channel_id = Some ''c1'', data_guild_id = None,
      data_content = Some ''edited'', data_author = None\<rparr>"

definition ex_stub :: message where
  "ex_stub =
     \<lparr>msg_id = Some ''m2'', msg_channel = Some ''c1'', deleted = False,
      content = None, author = None\<rparr>"

section \<open>Properties of collections\<close>

lemma coll_get_set: "coll_get (coll_set m k v) k' = (if k' = k then Some v else coll_get m k')"
  by (induction m) (auto simp: coll_get_def)

lemma keys_Cons: "keys (x # m) = insert (fst x) (keys m)"
  by (simp add: keys_def)

lemma keys_Nil: "keys [] = {}"
  by (simp add: keys_def)

lemma keys_set: "keys (coll_set m k v) = insert k (keys m)"
proof (induction m)
  case Nil
  show ?case by (simp add: keys_Cons keys_Nil)
next
  case (Cons x m)
  show ?case
  proof (cases "fst x = k")
    case True
    then show ?thesis by (cases x) (simp add: keys_Cons)
  next
    case False
    then have "coll_set (x # m) k v = x # coll_set m k v" by (cases x) simp
    then show ?thesis using Cons.IH by (simp add: keys_Cons insert_commute)
  qed
qed

lemma map_fst_set_absent: "k \<notin> keys m \<Longrightarrow> coll_set m k v = m @ [(k, v)]"
  by (induction m) (auto simp: keys_Cons keys_Nil)

lemma map_fst_set_present: "k \<in> keys m \<Longrightarrow> map fst (coll_set m k v) = map fst m"
  by (induction m) (auto simp: keys_Cons keys_Nil)

lemma distinct_set: "distinct (map fst m) \<Longrightarrow> distinct (map fst (coll_set m k v))"
  by (cases "k \<in> keys m") (auto simp: map_fst_set_present map_fst_set_absent keys_def)

lemma coll_get_delete: "coll_get (coll_delete m k) k' = (if k' = k then None else coll_get m k')"
  by (induction m) (auto simp: coll_get_def coll_delete_def)

lemma keys_delete: "keys (coll_delete m k) = keys m - {k}"
  by (auto simp: keys_def coll_delete_def)

lemma distinct_delete: "distinct (map fst m) \<Longrightarrow> distinct (map fst (coll_delete m k))"
  by (simp add: coll_delete_def distinct_map_filter)

lemma coll_get_None: "coll_get m k = None \<longleftrightarrow> k \<notin> keys m"
  by (simp add: coll_get_def keys_def map_of_eq_None_iff)

lemma coll_get_Some_mem: "coll_get m k = Some v \<Longrightarrow> (k, v) \<in> set m"
  by (simp add: coll_get_def map_of_SomeD)

lemma coll_get_mem: "distinct (map fst m) \<Longrightarrow> (k, v) \<in> set m \<Longrightarrow> coll_get m k = Some v"
  by (simp add: coll_get_def)

lemma coll_set_same: "coll_get m k = Some v \<Longrightarrow> coll_set m k v = m"
  by (induction m) (auto simp: coll_get_def split: if_splits)

lemma mappify_aux:
  "distinct (map fst (acc @ xs)) \<Longrightarrow>
   foldl (\<lambda>m x. coll_set m (fst x) (snd x)) acc xs = acc @ xs"
proof (induction xs arbitrary: acc)
  case Nil
  then show ?case by simp
next
  case (Cons x xs)
  have "fst x \<notin> keys acc" using Cons.prems by (auto simp: keys_def)
  then have "coll_set acc (fst x) (snd x) = acc @ [x]"
    by (simp add: map_fst_set_absent)
  moreover have "distinct (map fst ((acc @ [x]) @ xs))" using Cons.prems by simp
  ultimately show ?case using Cons.IH [of "acc @ [x]"] by simp
qed

lemma mappify_distinct: "distinct (map fst m) \<Longrightarrow> mappify m = m"
  using mappify_aux [of "[]" m] by (simp add: mappify_def)

section \<open>Properties of the emoji list synchronisation\<close>

subsection \<open>The two loops in closed form\<close>

lemma wf_store_keyed: "wf_store m \<Longrightarrow> coll_get m k = Some e \<Longrightarrow> emoji_id e = k"
  by (auto simp: wf_store_def list_all_iff dest!: coll_get_Some_mem)

lemma list_all_coll_set:
  "list_all P m \<Longrightarrow> P (k, v) \<Longrightarrow> list_all P (coll_set m k v)"
  by (induction m) auto

lemma wf_store_set: "wf_store m \<Longrightarrow> emoji_id e = k \<Longrightarrow> wf_store (coll_set m k e)"
  by (simp add: wf_store_def distinct_set list_all_coll_set)

lemma wf_store_delete: "wf_store m \<Longrightarrow> wf_store (coll_delete m k)"
  using distinct_delete [of m k] by (simp add: wf_store_def coll_delete_def list_all_iff)

lemma coll_get_Some_keys: "coll_get m k = Some v \<Longrightarrow> k \<in> keys m"
  using coll_get_None [of m k] by simp

lemma wf_store_create: "wf_store m \<Longrightarrow> wf_store (fst (GuildEmojiCreate_handle m r))"
  by (simp add: GuildEmojiCreate_handle_def Let_def wf_store_set new_emoji_def)

lemma wf_store_update:
  "wf_store m \<Longrightarrow> coll_get m k = Some c \<Longrightarrow> wf_store (fst (GuildEmojiUpdate_handle m c r))"
  by (simp add: GuildEmojiUpdate_handle_def Let_def wf_store_set patch_emoji_def)

lemma emoji_loop_Cons:
  assumes "wf_store store"
  shows "emoji_loop equals (r # rest) (store, dels, evs) =
   emoji_loop equals rest
     (entry_store equals store r,
      (if raw_id r \<in> keys store then coll_delete dels (raw_id r) else dels),
      evs @ entry_events equals store r)"
proof (cases "coll_get store (raw_id r)")
  case None
  then have "raw_id r \<notin> keys store" by (simp add: coll_get_None)
  with None show ?thesis
    by (simp add: entry_store_def entry_events_def GuildEmojiCreate_handle_def Let_def
        new_emoji_def)
next
  case (Some c)
  then have "raw_id r \<in> keys store" by (rule coll_get_Some_keys)
  moreover have "emoji_id c = raw_id r" using assms Some by (rule wf_store_keyed)
  ultimately show ?thesis using Some
    by (simp add: entry_store_def entry_events_def GuildEmojiUpdate_handle_def Let_def)
qed

lemma wf_entry_store:
  assumes "wf_store store"
  shows "wf_store (entry_store equals store r)"
proof (cases "coll_get store (raw_id r)")
  case None
  then show ?thesis using assms
    by (simp add: entry_store_def wf_store_set new_emoji_def)
next
  case (Some c)
  have "emoji_id c = raw_id r" using assms Some by (rule wf_store_keyed)
  then show ?thesis using assms Some
    by (simp add: entry_store_def wf_store_set patch_emoji_def)
qed

lemma keys_entry_store: "keys (entry_store equals store r) = insert (raw_id r) (keys store)"
proof (cases "coll_get store (raw_id r)")
  case None
  then show ?thesis by (simp add: entry_store_def keys_set)
next
  case (Some c)
  then have "raw_id r \<in> keys store" by (rule coll_get_Some_keys)
  then show ?thesis using Some by (auto simp: entry_store_def keys_set)
qed

lemma get_entry_store_other:
  "k \<noteq> raw_id r \<Longrightarrow> coll_get (entry_store equals store r) k = coll_get store k"
  by (cases "coll_get store (raw_id r)") (simp_all add: entry_store_def coll_get_set)

lemma coll_delete_absent: "k \<notin> keys m \<Longrightarrow> coll_delete m k = m"
  by (auto simp: coll_delete_def keys_def filter_id_conv)

lemma emoji_loop_eq:
  "wf_store store \<Longrightarrow> keys dels \<subseteq> keys store \<Longrightarrow>
   emoji_loop equals A (store, dels, evs) =
     (foldl (entry_store equals) store A,
      filter (\<lambda>kv. fst kv \<notin> raw_id ` set A) dels,
      evs @ loop_events equals store A)"
proof (induction A arbitrary: store dels evs)
  case Nil
  show ?case by simp
next
  case (Cons r rest)
  let ?store = "entry_store equals store r"
  let ?dels = "coll_delete dels (raw_id r)"
  have d: "(if raw_id r \<in> keys store then coll_delete dels (raw_id r) else dels) = ?dels"
  proof (cases "raw_id r \<in> keys store")
    case True
    then show ?thesis by simp
  next
    case False
    then have "raw_id r \<notin> keys dels" using Cons.prems(2) by blast
    then show ?thesis using False by (simp add: coll_delete_absent)
  qed
  have step: "emoji_loop equals (r # rest) (store, dels, evs) =
      emoji_loop equals rest (?store, ?dels, evs @ entry_events equals store r)"
    using emoji_loop_Cons [OF Cons.prems(1), of equals r rest dels evs] d by simp
  have wf: "wf_store ?store" using Cons.prems(1) by (rule wf_entry_store)
  have sub: "keys ?dels \<subseteq> keys ?store"
    using Cons.prems(2) by (auto simp: keys_delete keys_entry_store)
  have f: "filter (\<lambda>kv. fst kv \<notin> raw_id ` set rest) ?dels =
           filter (\<lambda>kv. fst kv \<notin> raw_id ` set (r # rest)) dels"
    by (auto simp: coll_delete_def intro: filter_cong)
  show ?case
    unfolding step Cons.IH [OF wf sub] f by simp
qed

lemma delete_loop_eq:
  "delete_loop es (store, evs) =
     (filter (\<lambda>kv. fst kv \<notin> emoji_id ` set es) store, evs @ map EmojiDeleted es)"
proof (induction es arbitrary: store evs)
  case Nil
  show ?case by simp
next
  case (Cons e es)
  have "filter (\<lambda>kv. fst kv \<notin> emoji_id ` set es) (coll_delete store (emoji_id e)) =
        filter (\<lambda>kv. fst kv \<notin> emoji_id ` set (e # es)) store"
    by (auto simp: coll_delete_def intro: filter_cong)
  then show ?case
    by (simp add: GuildEmojiDelete_handle_def Cons.IH)
qed

lemma handle_eq:
  assumes g: "coll_get (guilds cl) (guild_id data) = Some g"
    and B: "guild_emojis g = Some B"
    and wf: "wf_store B"
  shows "GuildEmojisUpdate_handle equals cl data =
    (cl\<lparr>guilds := coll_set (guilds cl) (guild_id data)
           (g\<lparr>guild_emojis := Some (synced_store equals B (emojis data))\<rparr>)\<rparr>,
     loop_events equals B (emojis data)
       @ map EmojiDeleted (coll_values (stale B (emojis data))))"
proof -
  have m: "mappify B = B" using wf by (simp add: wf_store_def mappify_distinct)
  have l: "emoji_loop equals (emojis data) (B, B, []) =
      (foldl (entry_store equals) B (emojis data), stale B (emojis data),
       loop_events equals B (emojis data))"
    using emoji_loop_eq [OF wf, of B equals "emojis data" "[]"] by (simp add: stale_def)
  show ?thesis
    by (simp add: GuildEmojisUpdate_handle_def g B m l delete_loop_eq synced_store_def)
qed

lemma handle_absent:
  "coll_get (guilds cl) (guild_id data) = None \<Longrightarrow>
   GuildEmojisUpdate_handle equals cl data = (cl, [])"
  by (simp add: GuildEmojisUpdate_handle_def)

lemma handle_no_store:
  "coll_get (guilds cl) (guild_id data) = Some g \<Longrightarrow> guild_emojis g = None \<Longrightarrow>
   GuildEmojisUpdate_handle equals cl data = (cl, [])"
  by (simp add: GuildEmojisUpdate_handle_def)

lemma entry_events_kind:
  "e \<in> set (entry_events equals store r) \<Longrightarrow> is_updated e \<or> is_created e"
  by (auto simp: entry_events_def split: option.splits if_splits)

lemma loop_events_kind:
  "e \<in> set (loop_events equals store A) \<Longrightarrow> is_updated e \<or> is_created e"
  by (induction A arbitrary: store) (auto dest: entry_events_kind)

lemma entry_events_id:
  assumes "wf_store store"
  shows "map event_id (entry_events equals store r) =
         (if entry_events equals store r = [] then [] else [raw_id r])"
proof (cases "coll_get store (raw_id r)")
  case None
  then show ?thesis by (simp add: entry_events_def new_emoji_def)
next
  case (Some c)
  have "emoji_id c = raw_id r" using assms Some by (rule wf_store_keyed)
  then show ?thesis using Some by (simp add: entry_events_def patch_emoji_def)
qed

lemma loop_events_ids:
  "wf_store store \<Longrightarrow> subseq (map event_id (loop_events equals store A)) (map raw_id A)"
proof (induction A arbitrary: store)
  case Nil
  show ?case by simp
next
  case (Cons r rest)
  have wf: "wf_store (entry_store equals store r)" using Cons.prems by (rule wf_entry_store)
  show ?case
    using Cons.IH [OF wf] entry_events_id [OF Cons.prems, of equals r]
    by (auto split: if_splits)
qed

lemma entry_events_other:
  "raw_id r' \<noteq> raw_id r \<Longrightarrow>
   entry_events equals (entry_store equals store r) r' = entry_events equals store r'"
  by (simp add: entry_events_def get_entry_store_other)

lemma loop_events_distinct:
  "distinct (map raw_id A) \<Longrightarrow>
   loop_events equals store A = concat (map (entry_events equals store) A)"
proof (induction A arbitrary: store)
  case Nil
  show ?case by simp
next
  case (Cons r rest)
  have d: "distinct (map raw_id rest)" using Cons.prems by simp
  have m: "map (entry_events equals (entry_store equals store r)) rest =
        map (entry_events equals store) rest"
  proof (rule map_cong [OF refl])
    fix r' assume "r' \<in> set rest"
    then have "raw_id r' \<in> raw_id ` set rest" by (rule imageI)
    moreover have "raw_id r \<notin> raw_id ` set rest" using Cons.prems by simp
    ultimately have "raw_id r' \<noteq> raw_id r" by metis
    then show "entry_events equals (entry_store equals store r) r' =
               entry_events equals store r'"
      by (rule entry_events_other)
  qed
  have "loop_events equals (entry_store equals store r) rest =
        concat (map (entry_events equals store) rest)"
    unfolding Cons.IH [OF d, of "entry_store equals store r"] m ..
  then show ?case by simp
qed

lemma emoji_store_SomeD:
  "emoji_store cl gid = Some B \<Longrightarrow>
   \<exists>g. coll_get (guilds cl) gid = Some g \<and> guild_emojis g = Some B"
  by (simp add: emoji_store_def split: option.splits)

lemma keys_filter: "keys (filter (\<lambda>kv. fst kv \<notin> S) m) = keys m - S"
  by (auto simp: keys_def)

lemma wf_store_filter: "wf_store m \<Longrightarrow> wf_store (filter P m)"
  by (simp add: wf_store_def distinct_map_filter list_all_iff)

lemma wf_foldl_entry_store:
  "wf_store store \<Longrightarrow> wf_store (foldl (entry_store equals) store A)"
  by (induction A arbitrary: store) (simp_all add: wf_entry_store)

lemma keys_foldl_entry_store:
  "keys (foldl (entry_store equals) store A) = keys store \<union> raw_id ` set A"
  by (induction A arbitrary: store) (simp_all add: keys_entry_store)

lemma wf_store_values_ids: "wf_store m \<Longrightarrow> map emoji_id (coll_values m) = map fst m"
  by (simp add: wf_store_def coll_values_def list_all_iff)

lemma stale_ids: "wf_store B \<Longrightarrow> emoji_id ` set (coll_values (stale B A)) = keys B - raw_id ` set A"
proof -
  assume wf: "wf_store B"
  have "wf_store (stale B A)" unfolding stale_def using wf by (rule wf_store_filter)
  then have "map emoji_id (coll_values (stale B A)) = map fst (stale B A)"
    by (rule wf_store_values_ids)
  then have "set (map emoji_id (coll_values (stale B A))) = set (map fst (stale B A))"
    by simp
  then have "emoji_id ` set (coll_values (stale B A)) = keys (stale B A)"
    by (simp add: keys_def)
  then show ?thesis by (simp add: stale_def keys_filter)
qed

lemma wf_synced_store: "wf_store B \<Longrightarrow> wf_store (synced_store equals B A)"
  unfolding synced_store_def by (intro wf_store_filter wf_foldl_entry_store)

lemma keys_synced_store:
  assumes "wf_store B"
  shows "keys (synced_store equals B A) = raw_id ` set A"
proof -
  have "keys (synced_store equals B A) =
        keys (foldl (entry_store equals) B A) - emoji_id ` set (coll_values (stale B A))"
    unfolding synced_store_def by (rule keys_filter)
  also have "\<dots> = (keys B \<union> raw_id ` set A) - (keys B - raw_id ` set A)"
    by (simp only: keys_foldl_entry_store stale_ids [OF assms])
  also have "\<dots> = raw_id ` set A" by blast
  finally show ?thesis .
qed

lemma in_sync_entry:
  "in_sync equals store A \<Longrightarrow> r \<in> set A \<Longrightarrow>
   entry_events equals store r = [] \<and> entry_store equals store r = store"
  by (auto simp: in_sync_def list_all_iff entry_events_def entry_store_def split: option.splits)

lemma in_sync_loop:
  "in_sync equals store A \<Longrightarrow> set A' \<subseteq> set A \<Longrightarrow>
   loop_events equals store A' = [] \<and> foldl (entry_store equals) store A' = store"
  by (induction A') (simp_all add: in_sync_entry)

lemma stale_empty: "keys B \<subseteq> raw_id ` set A \<Longrightarrow> stale B A = []"
  by (auto simp: stale_def keys_def filter_empty_conv)

lemma in_sync_fixpoint:
  assumes "in_sync equals B A" "keys B \<subseteq> raw_id ` set A"
  shows "synced_store equals B A = B" "loop_events equals B A = []" "stale B A = []"
  using in_sync_loop [OF assms(1) subset_refl] stale_empty [OF assms(2)]
  by (simp_all add: synced_store_def coll_values_def)

lemma handle_store:
  assumes "emoji_store cl (guild_id data) = Some B" "wf_store B"
    and "GuildEmojisUpdate_handle equals cl data = (cl1, evs1)"
  shows "emoji_store cl1 (guild_id data) = Some (synced_store equals B (emojis data))"
proof -
  obtain g where g: "coll_get (guilds cl) (guild_id data) = Some g" "guild_emojis g = Some B"
    using emoji_store_SomeD [OF assms(1)] by blast
  show ?thesis
    using handle_eq [OF g assms(2), of equals] assms(3)
    by (auto simp: emoji_store_def coll_get_set)
qed

lemma handle_in_sync:
  assumes B1: "emoji_store cl1 (guild_id data) = Some B1"
    and wf1: "wf_store B1"
    and keys1: "keys B1 \<subseteq> raw_id ` set (emojis data)"
    and sync: "in_sync equals B1 (emojis data)"
  shows "GuildEmojisUpdate_handle equals cl1 data = (cl1, [])"
proof -
  obtain g1 where g1: "coll_get (guilds cl1) (guild_id data) = Some g1"
      "guild_emojis g1 = Some B1"
    using emoji_store_SomeD [OF B1] by blast
  have "g1\<lparr>guild_emojis := Some B1\<rparr> = g1" using g1(2) by simp
  moreover have "coll_set (guilds cl1) (guild_id data) g1 = guilds cl1"
    using g1(1) by (rule coll_set_same)
  ultimately show ?thesis
    using handle_eq [OF g1 wf1, of equals] in_sync_fixpoint [OF sync keys1]
    by (simp add: coll_values_def)
qed

lemma emitted_eq:
  assumes "emoji_store cl (guild_id data) = Some B" "wf_store B"
  shows "emitted equals cl data =
    loop_events equals B (emojis data) @ map EmojiDeleted (coll_values (stale B (emojis data)))"
proof -
  obtain g where g: "coll_get (guilds cl) (guild_id data) = Some g" "guild_emojis g = Some B"
    using emoji_store_SomeD [OF assms(1)] by blast
  show ?thesis using handle_eq [OF g assms(2), of equals] by (simp add: emitted_def)
qed

lemma entry_updated_ids:
  assumes "wf_store B"
  shows "event_id ` set (filter is_updated (entry_events equals B r)) =
         (if \<exists>c. coll_get B (raw_id r) = Some c \<and> \<not> equals c r then {raw_id r} else {})"
proof (cases "coll_get B (raw_id r)")
  case None
  then show ?thesis by (simp add: entry_events_def)
next
  case (Some c)
  have "emoji_id c = raw_id r" using assms Some by (rule wf_store_keyed)
  then show ?thesis using Some by (simp add: entry_events_def patch_emoji_def)
qed

lemma entry_created_ids:
  "event_id ` set (filter is_created (entry_events equals B r)) =
         (if raw_id r \<in> keys B then {} else {raw_id r})"
proof (cases "coll_get B (raw_id r)")
  case None
  then have "raw_id r \<notin> keys B" by (simp add: coll_get_None)
  then show ?thesis using None by (simp add: entry_events_def new_emoji_def)
next
  case (Some c)
  then have "raw_id r \<in> keys B" by (rule coll_get_Some_keys)
  then show ?thesis using Some by (simp add: entry_events_def)
qed

lemma entry_deleted_none: "filter is_deleted (entry_events equals B r) = []"
  by (simp add: entry_events_def split: option.splits)

lemma filter_concat_ids:
  "event_id ` set (filter P (concat (map f A))) = (\<Union>r \<in> set A. event_id ` set (filter P (f r)))"
  by (induction A) (simp_all add: image_Un)

lemma deleted_part_ids:
  "wf_store B \<Longrightarrow> map event_id (map EmojiDeleted (coll_values (stale B A))) = map fst (stale B A)"
proof -
  assume "wf_store B"
  then have "wf_store (stale B A)" unfolding stale_def by (rule wf_store_filter)
  then have "map emoji_id (coll_values (stale B A)) = map fst (stale B A)"
    by (rule wf_store_values_ids)
  then show ?thesis by (simp add: comp_def)
qed

lemma keys_stale: "keys (stale B A) = keys B - raw_id ` set A"
  by (simp add: stale_def keys_filter)

lemma loop_ids_filter:
  assumes "wf_store B"
  shows "map event_id (concat (map (entry_events equals B) A)) =
         map raw_id (filter (\<lambda>r. entry_events equals B r \<noteq> []) A)"
  by (induction A) (simp_all add: entry_events_id [OF assms])

lemma filter_kind_deleted_map:
  "filter is_updated (map EmojiDeleted es) = []"
  "filter is_created (map EmojiDeleted es) = []"
  "filter is_deleted (map EmojiDeleted es) = map EmojiDeleted es"
  by (induction es) simp_all

lemma filter_deleted_loop:
  "filter is_deleted (concat (map (entry_events equals B) A)) = []"
  by (induction A) (simp_all add: entry_deleted_none)

lemma not_deleted_loop: "filter is_deleted (loop_events equals B A) = []"
proof -
  have "\<not> is_deleted e" if "e \<in> set (loop_events equals B A)" for e
    using loop_events_kind [OF that] by (cases e) simp_all
  then show ?thesis by (simp add: filter_empty_conv)
qed

subsection \<open>The claims about GuildEmojisUpdate\<close>

text \<open>
  C1. For a guild cached with a (well-formed) emoji store \<open>B\<close> and an incoming list
  \<open>A\<close>, the notifications of \<^verbatim>\<open>handle\<close> partition the identifiers. The deleted
  notifications are those of the identifiers of \<open>B\<close> absent from \<open>A\<close>, whatever the
  order of \<open>A\<close> and even when \<open>A\<close> repeats an identifier: they come from the snapshot
  taken before the loop, so an identifier present in both never gets one. Every
  notification is an update, a creation or a deletion. When \<open>A\<close> is a set of emojis (no
  identifier twice), the updated notifications are those of the identifiers in both whose
  cached emoji does not equal the incoming entry, the created ones those of the identifiers
  of \<open>A\<close> absent from \<open>B\<close>, and no identifier is notified twice, so each is in exactly
  one category.
\<close>

theorem emoji_sync_partition:
  assumes store: "emoji_store cl (guild_id data) = Some B"
    and wf: "wf_store B"
  shows "event_id ` set (filter is_deleted (emitted equals cl data)) =
           keys B - raw_id ` set (emojis data)
       \<and> list_all (\<lambda>e. is_updated e \<or> is_created e \<or> is_deleted e) (emitted equals cl data)
       \<and> (distinct (map raw_id (emojis data)) \<longrightarrow>
            event_id ` set (filter is_updated (emitted equals cl data)) =
              {i. \<exists>r \<in> set (emojis data). raw_id r = i \<and>
                    (\<exists>c. coll_get B i = Some c \<and> \<not> equals c r)}
          \<and> event_id ` set (filter is_created (emitted equals cl data)) =
              raw_id ` set (emojis data) - keys B
          \<and> distinct (map event_id (emitted equals cl data)))"
proof -
  let ?A = "emojis data"
  let ?L = "concat (map (entry_events equals B) ?A)"
  let ?D = "map EmojiDeleted (coll_values (stale B ?A))"
  have ev0: "emitted equals cl data = loop_events equals B ?A @ ?D"
    using store wf by (rule emitted_eq)
  have del: "event_id ` set (filter is_deleted (emitted equals cl data)) =
      keys B - raw_id ` set ?A"
  proof -
    have "filter is_deleted (emitted equals cl data) = ?D"
      unfolding ev0 by (simp add: filter_kind_deleted_map not_deleted_loop)
    then have "event_id ` set (filter is_deleted (emitted equals cl data)) =
        set (map event_id ?D)"
      by (simp only: set_map)
    also have "\<dots> = keys (stale B ?A)"
      by (simp only: deleted_part_ids [OF wf]) (simp add: keys_def)
    finally show ?thesis by (simp add: keys_stale)
  qed
  have kinds: "list_all (\<lambda>e. is_updated e \<or> is_created e \<or> is_deleted e)
      (emitted equals cl data)"
  proof -
    have "\<forall>e \<in> set (loop_events equals B ?A). is_updated e \<or> is_created e"
      by (auto dest: loop_events_kind)
    moreover have "\<forall>e \<in> set ?D. is_deleted e" by auto
    ultimately show ?thesis unfolding ev0 by (auto simp: list_all_iff)
  qed
  have rest: "event_id ` set (filter is_updated (emitted equals cl data)) =
              {i. \<exists>r \<in> set ?A. raw_id r = i \<and>
                    (\<exists>c. coll_get B i = Some c \<and> \<not> equals c r)}
          \<and> event_id ` set (filter is_created (emitted equals cl data)) =
              raw_id ` set ?A - keys B
          \<and> distinct (map event_id (emitted equals cl data))"
    if dist: "distinct (map raw_id ?A)"
  proof -
    have ev: "emitted equals cl data = ?L @ ?D"
      unfolding ev0 using loop_events_distinct [OF dist, of equals B] by simp
    have upd: "event_id ` set (filter is_updated (?L @ ?D)) =
        {i. \<exists>r \<in> set ?A. raw_id r = i \<and> (\<exists>c. coll_get B i = Some c \<and> \<not> equals c r)}"
    proof -
      have "event_id ` set (filter is_updated (?L @ ?D)) = event_id ` set (filter is_updated ?L)"
        by (simp add: filter_kind_deleted_map)
      also have "\<dots> = (\<Union>r \<in> set ?A.
          (if \<exists>c. coll_get B (raw_id r) = Some c \<and> \<not> equals c r then {raw_id r} else {}))"
        by (simp only: filter_concat_ids entry_updated_ids [OF wf])
      also have "\<dots> = {i. \<exists>r \<in> set ?A. raw_id r = i \<and>
          (\<exists>c. coll_get B i = Some c \<and> \<not> equals c r)}"
        by (auto split: if_splits)
      finally show ?thesis .
    qed
    have cre: "event_id ` set (filter is_created (?L @ ?D)) = raw_id ` set ?A - keys B"
    proof -
      have "event_id ` set (filter is_created (?L @ ?D)) = event_id ` set (filter is_created ?L)"
        by (simp add: filter_kind_deleted_map)
      also have "\<dots> = (\<Union>r \<in> set ?A. (if raw_id r \<in> keys B then {} else {raw_id r}))"
        by (simp only: filter_concat_ids entry_created_ids)
      also have "\<dots> = raw_id ` set ?A - keys B"
        by (auto split: if_splits)
      finally show ?thesis .
    qed
    have once: "distinct (map event_id (?L @ ?D))"
    proof -
      have l: "map event_id ?L = map raw_id (filter (\<lambda>r. entry_events equals B r \<noteq> []) ?A)"
        using wf by (rule loop_ids_filter)
      have d: "map event_id ?D = map fst (stale B ?A)"
        using wf by (rule deleted_part_ids)
      have "distinct (map event_id ?L)"
        unfolding l using dist by (rule distinct_map_filter)
      moreover have "distinct (map event_id ?D)"
      proof -
        have "distinct (map fst (stale B ?A))"
          unfolding stale_def using wf by (simp add: wf_store_def distinct_map_filter)
        then show ?thesis by (simp only: d)
      qed
      moreover have "set (map event_id ?L) \<inter> set (map event_id ?D) = {}"
      proof -
        have "set (map event_id ?L) \<subseteq> raw_id ` set ?A" unfolding l by auto
        moreover have "set (map event_id ?D) = keys B - raw_id ` set ?A"
        proof -
          have "set (map fst (stale B ?A)) = keys (stale B ?A)" by (simp add: keys_def)
          then show ?thesis by (simp only: d keys_stale)
        qed
        ultimately show ?thesis by blast
      qed
      ultimately show ?thesis by (simp only: map_append distinct_append simp_thms)
    qed
    show ?thesis unfolding ev using upd cre once by blast
  qed
  show ?thesis using del kinds rest by blast
qed

lemma ex_store_lookup: "emoji_store ex_client (guild_id ex_update) = Some ex_store"
  by (simp add: emoji_store_def ex_client_def ex_update_def coll_get_def)

lemma ex_store_wf: "wf_store ex_store"
  by (simp add: wf_store_def ex_store_def)

lemma ex_update_distinct: "distinct (map raw_id (emojis ex_update))"
  by (simp add: ex_update_def)

theorem emoji_sync_partition_witness:
  "emoji_store ex_client (guild_id ex_update) = Some ex_store
   \<and> wf_store ex_store
   \<and> distinct (map raw_id (emojis ex_update))
   \<and> event_id ` set (filter is_deleted (emitted equals_all_fields ex_client ex_update)) =
       keys ex_store - raw_id ` set (emojis ex_update)
   \<and> event_id ` set (filter is_updated (emitted equals_all_fields ex_client ex_update)) =
       {i. \<exists>r \<in> set (emojis ex_update). raw_id r = i \<and>
             (\<exists>c. coll_get ex_store i = Some c \<and> \<not> equals_all_fields c r)}
   \<and> event_id ` set (filter is_created (emitted equals_all_fields ex_client ex_update)) =
       raw_id ` set (emojis ex_update) - keys ex_store
   \<and> distinct (map event_id (emitted equals_all_fields ex_client ex_update))"
proof -
  note t = emoji_sync_partition [OF ex_store_lookup ex_store_wf, of equals_all_fields]
  note d = ex_update_distinct
  note r = t [THEN conjunct2, THEN conjunct2, THEN mp, OF d]
  show ?thesis
    by (intro conjI ex_store_lookup ex_store_wf d t [THEN conjunct1] r [THEN conjunct1]
        r [THEN conjunct2, THEN conjunct1] r [THEN conjunct2, THEN conjunct2])
qed

text \<open>
  C2. Apply an emoji list to a guild cached with an emoji store, and let the store after
  that be in sync with the list (each entry has a cached emoji that equals it). Applying
  the same list again emits no notification and leaves the client as it is.
\<close>

theorem emoji_sync_idempotent:
  assumes store: "emoji_store cl (guild_id data) = Some B"
    and wf: "wf_store B"
    and first: "GuildEmojisUpdate_handle equals cl data = (cl1, evs1)"
    and store1: "emoji_store cl1 (guild_id data) = Some B1"
    and sync: "in_sync equals B1 (emojis data)"
  shows "GuildEmojisUpdate_handle equals cl1 data = (cl1, [])"
proof -
  have "emoji_store cl1 (guild_id data) = Some (synced_store equals B (emojis data))"
    using store wf first by (rule handle_store)
  then have B1: "B1 = synced_store equals B (emojis data)" using store1 by simp
  have wf1: "wf_store B1" unfolding B1 using wf by (rule wf_synced_store)
  have keys1: "keys B1 \<subseteq> raw_id ` set (emojis data)"
    unfolding B1 using keys_synced_store [OF wf, of equals "emojis data"] by simp
  show ?thesis using store1 wf1 keys1 sync by (rule handle_in_sync)
qed

lemma ex_first_run:
  "GuildEmojisUpdate_handle equals_all_fields ex_client ex_update =
   (ex_client_after, emitted equals_all_fields ex_client ex_update)"
  by (simp add: ex_client_after_def emitted_def)

lemma ex_store_after_lookup: "emoji_store ex_client_after (guild_id ex_update) = Some ex_store_after"
  unfolding ex_client_after_def by code_simp

lemma ex_after_in_sync: "in_sync equals_all_fields ex_store_after (emojis ex_update)"
  by code_simp

theorem emoji_sync_idempotent_witness:
  "emoji_store ex_client (guild_id ex_update) = Some ex_store
   \<and> wf_store ex_store
   \<and> GuildEmojisUpdate_handle equals_all_fields ex_client ex_update =
       (ex_client_after, emitted equals_all_fields ex_client ex_update)
   \<and> emoji_store ex_client_after (guild_id ex_update) = Some ex_store_after
   \<and> in_sync equals_all_fields ex_store_after (emojis ex_update)
   \<and> GuildEmojisUpdate_handle equals_all_fields ex_client_after ex_update = (ex_client_after, [])"
  by (intro conjI ex_store_lookup ex_store_wf ex_first_run ex_store_after_lookup
      ex_after_in_sync
      emoji_sync_idempotent [OF ex_store_lookup ex_store_wf ex_first_run
        ex_store_after_lookup ex_after_in_sync])

text \<open>
  The hypothesis of the idempotence theorem is what the first application achieves when
  the list has no identifier twice and \<open>equals\<close> accepts an emoji just built or just
  patched from the entry: then applying a list twice emits nothing the second time.
\<close>

lemma get_foldl_entry_store_other:
  "k \<notin> raw_id ` set A \<Longrightarrow> coll_get (foldl (entry_store equals) s A) k = coll_get s k"
proof (induction A arbitrary: s)
  case Nil
  show ?case by simp
next
  case (Cons r rest)
  have "k \<noteq> raw_id r" and "k \<notin> raw_id ` set rest" using Cons.prems by auto
  then show ?case by (simp add: Cons.IH get_entry_store_other)
qed

lemma entry_store_in_sync:
  assumes wf: "wf_store s"
    and created: "\<And>r. equals (new_emoji r) r"
    and patched: "\<And>c r. emoji_id c = raw_id r \<Longrightarrow> equals (patch_emoji c r) r"
  shows "\<exists>c. coll_get (entry_store equals s r) (raw_id r) = Some c \<and> equals c r"
proof (cases "coll_get s (raw_id r)")
  case None
  then show ?thesis using created by (simp add: entry_store_def coll_get_set)
next
  case (Some c)
  have "emoji_id c = raw_id r" using wf Some by (rule wf_store_keyed)
  then show ?thesis using Some patched [of c r]
    by (simp add: entry_store_def coll_get_set)
qed

lemma foldl_entry_store_in_sync:
  assumes created: "\<And>r. equals (new_emoji r) r"
    and patched: "\<And>c r. emoji_id c = raw_id r \<Longrightarrow> equals (patch_emoji c r) r"
  shows "wf_store s \<Longrightarrow> distinct (map raw_id A) \<Longrightarrow> r \<in> set A \<Longrightarrow>
    \<exists>c. coll_get (foldl (entry_store equals) s A) (raw_id r) = Some c \<and> equals c r"
proof (induction A arbitrary: s)
  case Nil
  then show ?case by simp
next
  case (Cons x rest)
  have wf: "wf_store (entry_store equals s x)" using Cons.prems(1) by (rule wf_entry_store)
  have d: "distinct (map raw_id rest)" and nx: "raw_id x \<notin> raw_id ` set rest"
    using Cons.prems(2) by simp_all
  show ?case
  proof (cases "r \<in> set rest")
    case True
    then show ?thesis using Cons.IH [OF wf d True] by simp
  next
    case False
    then have rx: "r = x" using Cons.prems(3) by simp
    have "coll_get (foldl (entry_store equals) (entry_store equals s x) rest) (raw_id x)
        = coll_get (entry_store equals s x) (raw_id x)"
      using nx by (rule get_foldl_entry_store_other)
    then show ?thesis
      using entry_store_in_sync [OF Cons.prems(1), of equals x] created patched rx by simp
  qed
qed

lemma coll_get_filter:
  "P k \<Longrightarrow> coll_get (filter (\<lambda>kv. P (fst kv)) m) k = coll_get m k"
  by (induction m) (auto simp: coll_get_def)

lemma first_application_in_sync:
  assumes wf: "wf_store B"
    and dist: "distinct (map raw_id A)"
    and created: "\<And>r. equals (new_emoji r) r"
    and patched: "\<And>c r. emoji_id c = raw_id r \<Longrightarrow> equals (patch_emoji c r) r"
  shows "in_sync equals (synced_store equals B A) A"
proof -
  have "\<exists>c. coll_get (synced_store equals B A) (raw_id r) = Some c \<and> equals c r"
    if r: "r \<in> set A" for r
  proof -
    have "raw_id r \<notin> emoji_id ` set (coll_values (stale B A))"
      using r by (simp add: stale_ids [OF wf])
    then have "coll_get (synced_store equals B A) (raw_id r)
        = coll_get (foldl (entry_store equals) B A) (raw_id r)"
      unfolding synced_store_def
      by (rule coll_get_filter [of "\<lambda>k. k \<notin> emoji_id ` set (coll_values (stale B A))"])
    then show ?thesis
      using foldl_entry_store_in_sync [of equals B A r, OF created patched wf dist r] by simp
  qed
  then show ?thesis by (fastforce simp: in_sync_def list_all_iff)
qed

lemma emoji_sync_twice:
  assumes store: "emoji_store cl (guild_id data) = Some B"
    and wf: "wf_store B"
    and dist: "distinct (map raw_id (emojis data))"
    and created: "\<And>r. equals (new_emoji r) r"
    and patched: "\<And>c r. emoji_id c = raw_id r \<Longrightarrow> equals (patch_emoji c r) r"
    and first: "GuildEmojisUpdate_handle equals cl data = (cl1, evs1)"
  shows "GuildEmojisUpdate_handle equals cl1 data = (cl1, [])"
proof -
  let ?B1 = "synced_store equals B (emojis data)"
  have s1: "emoji_store cl1 (guild_id data) = Some ?B1"
    using store wf first by (rule handle_store)
  have wf1: "wf_store ?B1" using wf by (rule wf_synced_store)
  have keys1: "keys ?B1 \<subseteq> raw_id ` set (emojis data)"
    using keys_synced_store [OF wf, of equals "emojis data"] by simp
  have sync: "in_sync equals ?B1 (emojis data)"
    using wf dist created patched by (rule first_application_in_sync)
  show ?thesis using s1 wf1 keys1 sync by (rule handle_in_sync)
qed

text \<open>
  C3 as stated fails: updates and creations are emitted by one loop, in the order of the
  list, so a creation precedes an update when the list has the new emoji first.
\<close>

theorem emoji_sync_order_counterexample:
  "\<not> updates_creates_deletes (emitted equals_all_fields ex_client ex_update)"
  by code_simp

text \<open>
  C3, amended. The notifications of one call are those of the first loop, each an update
  or a creation, in the order of the incoming list (one at most per entry), followed by
  all the deletions, in the order of the cache.
\<close>

theorem emoji_sync_order:
  assumes store: "emoji_store cl (guild_id data) = Some B"
    and wf: "wf_store B"
  shows "\<exists>xs. emitted equals cl data =
            xs @ map EmojiDeleted
                   (coll_values (filter (\<lambda>kv. fst kv \<notin> raw_id ` set (emojis data)) B))
          \<and> list_all (\<lambda>e. is_updated e \<or> is_created e) xs
          \<and> subseq (map event_id xs) (map raw_id (emojis data))"
proof (intro exI conjI)
  show "emitted equals cl data =
      loop_events equals B (emojis data) @ map EmojiDeleted
        (coll_values (filter (\<lambda>kv. fst kv \<notin> raw_id ` set (emojis data)) B))"
    using emitted_eq [OF store wf, of equals] by (simp add: stale_def)
  show "list_all (\<lambda>e. is_updated e \<or> is_created e) (loop_events equals B (emojis data))"
    by (auto simp: list_all_iff dest: loop_events_kind)
  show "subseq (map event_id (loop_events equals B (emojis data))) (map raw_id (emojis data))"
    using wf by (rule loop_events_ids)
qed

theorem emoji_sync_order_witness:
  "emoji_store ex_client (guild_id ex_update) = Some ex_store
   \<and> wf_store ex_store
   \<and> (\<exists>xs. emitted equals_all_fields ex_client ex_update =
            xs @ map EmojiDeleted
                   (coll_values (filter (\<lambda>kv. fst kv \<notin> raw_id ` set (emojis ex_update)) ex_store))
          \<and> list_all (\<lambda>e. is_updated e \<or> is_created e) xs
          \<and> subseq (map event_id xs) (map raw_id (emojis ex_update)))"
  by (intro conjI ex_store_lookup ex_store_wf
      emoji_sync_order [OF ex_store_lookup ex_store_wf])

lemma emoji_loop_with_create:
  "emoji_loop_with GuildEmojiCreate_handle equals A st = emoji_loop equals A st"
proof (induction A arbitrary: st)
  case Nil
  show ?case by simp
next
  case (Cons r A)
  obtain store dels evs where st: "st = (store, dels, evs)" by (cases st) auto
  show ?case unfolding st
    by (simp add: Cons.IH Let_def split: option.splits prod.splits)
qed

lemma handle_with_create:
  "GuildEmojisUpdate_handle_with GuildEmojiCreate_handle equals cl data
     = GuildEmojisUpdate_handle equals cl data"
  by (simp add: GuildEmojisUpdate_handle_with_def GuildEmojisUpdate_handle_def
      emoji_loop_with_create split: option.splits)













lemma ex_unknown_guild: "coll_get (guilds ex_client) (guild_id ex_unknown_guild_update) = None"
  by (simp add: ex_client_def ex_unknown_guild_update_def coll_get_def)

text \<open>
  C7 as stated fails in one part: when the guild is unknown \<^verbatim>\<open>handle\<close> returns at once
  and emits nothing, so no diagnostic either.
\<close>

theorem emoji_sync_missing_guild_counterexample:
  "coll_get (guilds ex_client) (guild_id ex_unknown_guild_update) = None
   \<and> \<not> list_ex is_debug (emitted equals_all_fields ex_client ex_unknown_guild_update)"
  by code_simp

text \<open>
  C7, amended. If the guild of the payload is not cached, or is cached without an emoji
  store, \<^verbatim>\<open>handle\<close> returns normally, leaves the client unchanged and emits nothing at
  all: no created, updated or deleted notification and no diagnostic.
\<close>

theorem emoji_sync_missing_guild:
  assumes "coll_get (guilds cl) (guild_id data) = None
     \<or> (\<exists>g. coll_get (guilds cl) (guild_id data) = Some g \<and> guild_emojis g = None)"
  shows "GuildEmojisUpdate_handle equals cl data = (cl, [])"
  using assms by (auto simp: handle_absent handle_no_store)

theorem emoji_sync_missing_guild_witness:
  "(coll_get (guilds ex_client) (guild_id ex_unknown_guild_update) = None
     \<or> (\<exists>g. coll_get (guilds ex_client) (guild_id ex_unknown_guild_update) = Some g
            \<and> guild_emojis g = None))
   \<and> GuildEmojisUpdate_handle equals_all_fields ex_client ex_unknown_guild_update
       = (ex_client, [])"
  by (intro conjI disjI1 ex_unknown_guild
      emoji_sync_missing_guild [OF disjI1, OF ex_unknown_guild])


section \<open>Properties of the collector\<close>

subsection \<open>The methods in closed form, and the invariant\<close>

lemma stop_ended: "ended c \<Longrightarrow> stop r c = c"
  by (simp add: stop_def)

lemma stop_active:
  "\<not> ended c \<Longrightarrow>
   stop r c = c\<lparr>client_timers := clear_opt (idletimeout_field c)
                                   (clear_opt (timeout_field c) (client_timers c)),
                timeout_field := None, idletimeout_field := None, ended := True,
                trace := trace c @ [EvCleanup, EvEnd (collected c) (reason_of r)]\<rparr>"
  by (cases "timeout_field c"; cases "idletimeout_field c")
     (simp_all add: stop_def emit_def clear_opt_def reason_of_def)

lemma collector_handle_eq:
  "collector_handle h args c =
     (if truthy_str (postCheck_hook h (collect_part h args c) args)
      then stop (postCheck_hook h (collect_part h args c) args) (collect_part h args c)
      else collect_part h args c)"
proof -
  have "(case handle_hook h c args of
          None \<Rightarrow> c
        | Some (key, val) \<Rightarrow>
            if filter_hook h args (collected c)
            then
              (let c2 = c\<lparr>collected := coll_set (collected c) key val\<rparr>;
                   c3 = emit (EvCollect val) c2;
                   c4 = emit (EvFullCollect args) c3
               in case idletimeout_field c4 of
                    Some i \<Rightarrow>
                      (let cl1 = client_clearTimeout i (client_timers c4);
                           (j, cl2) = client_setTimeout (Some ''idle'') (delay_of (opt_idle c4)) cl1
                       in c4\<lparr>idletimeout_field := Some j, client_timers := cl2\<rparr>)
                  | None \<Rightarrow> c4)
            else c) = collect_part h args c"
    by (cases "handle_hook h c args"; cases "idletimeout_field c")
       (auto simp: collect_part_def emit_def Let_def client_setTimeout_def
          client_clearTimeout_def split: prod.splits)
  then show ?thesis by (simp add: collector_handle_def Let_def)
qed

lemma pending_clear_opt:
  "pending (clear_opt f cl) = filter (\<lambda>tm. f \<noteq> Some (timer_handle tm)) (pending cl)"
  by (cases f) (auto simp: clear_opt_def client_clearTimeout_def intro: filter_cong)

lemma collector_inv_stop:
  assumes "collector_inv F c"
  shows "collector_inv F (stop r c)"
proof (cases "ended c")
  case True
  then show ?thesis using assms by (simp add: stop_ended)
next
  case False
  have sub: "list_all (timer_ok F (timeout_field c) (idletimeout_field c))
        (pending (client_timers c))"
    and cnt: "length (filter is_end (trace c)) = 0"
    using assms False by (simp_all add: collector_inv_def)
  have "list_all (timer_ok F None None)
          (filter (\<lambda>tm. idletimeout_field c \<noteq> Some (timer_handle tm))
             (filter (\<lambda>tm. timeout_field c \<noteq> Some (timer_handle tm))
                (pending (client_timers c))))"
    using sub by (auto simp: list_all_iff timer_ok_def)
  then show ?thesis
    using cnt by (simp add: stop_active [OF False] collector_inv_def pending_clear_opt)
qed

lemma collect_part_skip: "\<not> collects h args c \<Longrightarrow> collect_part h args c = c"
  by (auto simp: collects_def collect_part_def split: option.splits)

lemma collect_part_plain:
  assumes "handle_hook h c args = Some kv" "filter_hook h args (collected c)"
    "idletimeout_field c = None"
  shows "collect_part h args c =
           c\<lparr>collected := coll_set (collected c) (fst kv) (snd kv),
             trace := trace c @ [EvCollect (snd kv), EvFullCollect args]\<rparr>"
  using assms by (cases c) (simp add: collect_part_def)

lemma collect_part_idle:
  assumes "handle_hook h c args = Some kv" "filter_hook h args (collected c)"
    "idletimeout_field c = Some i"
  shows "collect_part h args c =
           c\<lparr>collected := coll_set (collected c) (fst kv) (snd kv),
             trace := trace c @ [EvCollect (snd kv), EvFullCollect args],
             idletimeout_field := Some (fresh (client_timers c)),
             client_timers := (client_timers c)
               \<lparr>fresh := Suc (fresh (client_timers c)),
                pending := filter (\<lambda>tm. timer_handle tm \<noteq> i) (pending (client_timers c))
                  @ [\<lparr>timer_handle = fresh (client_timers c),
                       due = clock (client_timers c) + node_delay (delay_of (opt_idle c)),
                       callback = Some ''idle''\<rparr>],
                timeouts := (if fresh (client_timers c) \<in> set (removeAll i (timeouts (client_timers c)))
                             then removeAll i (timeouts (client_timers c))
                             else removeAll i (timeouts (client_timers c)) @ [fresh (client_timers c)])\<rparr>\<rparr>"
  using assms
  by (simp add: collect_part_def client_setTimeout_def client_clearTimeout_def Let_def)

lemma collector_inv_collect_part:
  assumes "collector_inv F c"
  shows "collector_inv F (collect_part h args c)"
proof (cases "collects h args c")
  case False
  then show ?thesis using assms by (simp add: collect_part_skip)
next
  case True
  then obtain kv where kv: "handle_hook h c args = Some kv" and f: "filter_hook h args (collected c)"
    by (auto simp: collects_def)
  show ?thesis
  proof (cases "idletimeout_field c")
    case None
    show ?thesis
      unfolding collect_part_plain [OF kv f None] using assms by (simp add: collector_inv_def)
  next
    case (Some i)
    have sub: "list_all (timer_ok F (timeout_field c) (Some i)) (pending (client_timers c))"
      using assms Some by (simp add: collector_inv_def)
    have p: "list_all (timer_ok F (timeout_field c) (Some (fresh (client_timers c))))
        (filter (\<lambda>tm. timer_handle tm \<noteq> i) (pending (client_timers c)))"
      using sub by (auto simp: list_all_iff timer_ok_def)
    have n: "timer_ok F (timeout_field c) (Some (fresh (client_timers c)))
        \<lparr>timer_handle = fresh (client_timers c),
         due = clock (client_timers c) + node_delay (delay_of (opt_idle c)),
         callback = Some ''idle''\<rparr>"
      by (simp add: timer_ok_def)
    have active: "\<not> ended c" using assms Some by (auto simp: collector_inv_def)
    have cnt: "length (filter is_end (trace c)) = 0"
      using assms active by (simp add: collector_inv_def)
    have b: "F \<le> i" "i < fresh (client_timers c)"
      using assms Some by (simp_all add: collector_inv_def)
    have a: "\<forall>a \<in> set_option (timeout_field c).
        F \<le> a \<and> a < Suc (fresh (client_timers c)) \<and> fresh (client_timers c) \<noteq> a"
      using assms by (auto simp: collector_inv_def)
    show ?thesis
      unfolding collect_part_idle [OF kv f Some] using p n active cnt b a
      by (simp add: collector_inv_def)
  qed
qed

lemma collector_inv_handle:
  "collector_inv F c \<Longrightarrow> collector_inv F (collector_handle h args c)"
  by (simp add: collector_handle_eq collector_inv_stop collector_inv_collect_part)

lemma collector_inv_disarm:
  assumes "collector_inv F c"
  shows "collector_inv F (c\<lparr>client_timers := (client_timers c)
      \<lparr>pending := filter (\<lambda>x. timer_handle x \<noteq> i) (pending (client_timers c)),
       clock := k\<rparr>\<rparr>)"
    and "collector_inv F (c\<lparr>client_timers := (client_timers c)
      \<lparr>pending := filter (\<lambda>x. timer_handle x \<noteq> i) (pending (client_timers c)),
       clock := k, timeouts := ts\<rparr>\<rparr>)"
  using assms by (auto simp: collector_inv_def list_all_iff)

lemma collector_inv_timeouts:
  "collector_inv F (c\<lparr>client_timers := (client_timers c)\<lparr>timeouts := ts\<rparr>\<rparr>) = collector_inv F c"
  by (simp add: collector_inv_def)

lemma collector_inv_fire:
  assumes "collector_inv F c"
  shows "collector_inv F (fire tm c)"
proof -
  let ?c1 = "c\<lparr>client_timers := (client_timers c)
      \<lparr>pending := filter (\<lambda>x. timer_handle x \<noteq> timer_handle tm) (pending (client_timers c)),
       clock := max (clock (client_timers c)) (due tm)\<rparr>\<rparr>"
  have c1: "collector_inv F ?c1" using assms by (rule collector_inv_disarm(1))
  show ?thesis
  proof (cases "callback tm")
    case None
    then show ?thesis using collector_inv_disarm(2) [OF assms]
      by (simp add: fire_def Let_def)
  next
    case (Some r)
    have "collector_inv F (stop (Some r) ?c1)" using c1 by (rule collector_inv_stop)
    then show ?thesis using Some by (simp add: fire_def Let_def collector_inv_timeouts)
  qed
qed

lemma advance_None:
  "next_due t (pending (client_timers c)) = None \<Longrightarrow>
   advance t c = c\<lparr>client_timers := (client_timers c)\<lparr>clock := max (clock (client_timers c)) t\<rparr>\<rparr>"
  by (subst advance.simps) simp

lemma advance_Some:
  "next_due t (pending (client_timers c)) = Some tm \<Longrightarrow> advance t c = advance t (fire tm c)"
  by (subst advance.simps) simp

lemma collector_inv_advance: "collector_inv F c \<Longrightarrow> collector_inv F (advance t c)"
proof (induction t c rule: advance.induct)
  case (1 t c)
  show ?case
  proof (cases "next_due t (pending (client_timers c))")
    case None
    then show ?thesis using "1.prems" by (simp add: advance_None collector_inv_def)
  next
    case (Some tm)
    have "collector_inv F (advance t (fire tm c))"
      using Some "1.prems" by (intro "1.IH" collector_inv_fire)
    then show ?thesis using Some by (simp add: advance_Some)
  qed
qed

lemma collector_inv_step: "collector_inv F c \<Longrightarrow> collector_inv F (step h c a)"
proof (cases a)
  case (Stop r)
  assume "collector_inv F c"
  then show ?thesis unfolding Stop step.simps by (rule collector_inv_stop)
next
  case (Deliver x)
  assume "collector_inv F c"
  then show ?thesis unfolding Deliver step.simps by (rule collector_inv_handle)
next
  case (Advance t)
  assume "collector_inv F c"
  then show ?thesis unfolding Advance step.simps by (rule collector_inv_advance)
qed

lemma collector_inv_run: "collector_inv F c \<Longrightarrow> collector_inv F (run h acts c)"
  unfolding run_def by (induction acts arbitrary: c) (simp_all add: collector_inv_step)

lemma collector_inv_new:
  assumes "foreign cl"
  shows "collector_inv (fresh cl) (new_collector cl time idle)"
proof -
  have "list_all (timer_ok (fresh cl) a b) (pending cl)" for a b
    using assms by (auto simp: foreign_def list_all_iff timer_ok_def)
  then show ?thesis
    by (simp add: new_collector_def collector_inv_def client_setTimeout_def Let_def
        timer_ok_def)
qed

lemma collector_inv_ended:
  assumes "collector_inv F c" "ended c"
  shows "timeout_field c = None" "idletimeout_field c = None"
    "list_all (\<lambda>tm. callback tm = None) (pending (client_timers c))"
proof -
  show t: "timeout_field c = None" and i: "idletimeout_field c = None"
    using assms by (simp_all add: collector_inv_def)
  have "list_all (timer_ok F None None) (pending (client_timers c))"
    using assms t i by (simp add: collector_inv_def)
  then show "list_all (\<lambda>tm. callback tm = None) (pending (client_timers c))"
    by (auto simp: list_all_iff timer_ok_def split: if_splits)
qed

lemma ended_stop: "ended (stop r c)"
  by (cases "ended c") (simp_all add: stop_ended stop_active)

lemma ended_collect_part: "ended (collect_part h args c) = ended c"
  by (simp add: collect_part_def split: option.splits)

lemma ended_handle: "ended c \<Longrightarrow> ended (collector_handle h args c)"
  by (simp add: collector_handle_eq ended_stop ended_collect_part)

lemma fire_ended:
  "ended c \<Longrightarrow>
   fire tm c = c\<lparr>client_timers := (client_timers c)
      \<lparr>pending := filter (\<lambda>x. timer_handle x \<noteq> timer_handle tm) (pending (client_timers c)),
       clock := max (clock (client_timers c)) (due tm),
       timeouts := removeAll (timer_handle tm) (timeouts (client_timers c))\<rparr>\<rparr>"
  by (cases "callback tm") (simp_all add: fire_def Let_def stop_ended)

lemma fire_foreign:
  "callback tm = None \<Longrightarrow>
   fire tm c = c\<lparr>client_timers := (client_timers c)
      \<lparr>pending := filter (\<lambda>x. timer_handle x \<noteq> timer_handle tm) (pending (client_timers c)),
       clock := max (clock (client_timers c)) (due tm),
       timeouts := removeAll (timer_handle tm) (timeouts (client_timers c))\<rparr>\<rparr>"
  by (simp add: fire_def Let_def)

lemma fire_own:
  assumes "callback tm = Some r" "\<not> ended c"
  shows "ended (fire tm c)" "collected (fire tm c) = collected c"
    "trace (fire tm c) = trace c @ [EvCleanup, EvEnd (collected c) r]"
  using assms by (simp_all add: fire_def Let_def stop_active reason_of_def)

lemma ended_fire: "ended c \<Longrightarrow> ended (fire tm c)"
  by (simp add: fire_ended)

lemma ended_advance: "ended c \<Longrightarrow> ended (advance t c)"
proof (induction t c rule: advance.induct)
  case (1 t c)
  show ?case
  proof (cases "next_due t (pending (client_timers c))")
    case None
    then show ?thesis using "1.prems" by (simp add: advance_None)
  next
    case (Some tm)
    have "ended (advance t (fire tm c))" using Some "1.prems" by (intro "1.IH" ended_fire)
    then show ?thesis using Some by (simp add: advance_Some)
  qed
qed

lemma ended_step: "ended c \<Longrightarrow> ended (step h c a)"
proof (cases a)
  case (Stop r)
  show ?thesis unfolding Stop step.simps by (rule ended_stop)
next
  case (Deliver x)
  assume "ended c"
  then show ?thesis unfolding Deliver step.simps by (rule ended_handle)
next
  case (Advance t)
  assume "ended c"
  then show ?thesis unfolding Advance step.simps by (rule ended_advance)
qed

lemma ended_run: "ended c \<Longrightarrow> ended (run h acts c)"
  unfolding run_def by (induction acts arbitrary: c) (simp_all add: ended_step)

lemma run_append: "run h (acts @ later) c = run h later (run h acts c)"
  by (simp add: run_def)

subsection \<open>Timers firing\<close>

lemma foldl_due_mem:
  "foldl (\<lambda>a b. if due b < due a then b else a) (x :: timer) xs \<in> set (x # xs)"
proof (induction xs arbitrary: x)
  case Nil
  show ?case by simp
next
  case (Cons y ys)
  have "foldl (\<lambda>a b. if due b < due a then b else a) (if due y < due x then y else x) ys
      \<in> set ((if due y < due x then y else x) # ys)"
    by (rule Cons.IH)
  then show ?case by (auto split: if_splits)
qed

lemma next_due_Some:
  assumes "next_due t ps = Some tm"
  shows "tm \<in> set ps" "due tm \<le> t"
proof -
  obtain x xs where f: "filter (\<lambda>tm. due tm \<le> t) ps = x # xs"
    and tm: "tm = foldl (\<lambda>a b. if due b < due a then b else a) x xs"
    using assms by (auto simp: next_due_def split: list.splits)
  have "tm \<in> set (x # xs)" unfolding tm by (rule foldl_due_mem)
  then have "tm \<in> set (filter (\<lambda>tm. due tm \<le> t) ps)" by (simp only: f)
  then show "tm \<in> set ps" "due tm \<le> t" by simp_all
qed

lemma next_due_None: "(next_due t ps = None) = (\<forall>tm \<in> set ps. \<not> due tm \<le> t)"
proof -
  have "(next_due t ps = None) = (filter (\<lambda>tm. due tm \<le> t) ps = [])"
    by (simp add: next_due_def split: list.splits)
  then show ?thesis by (simp add: filter_empty_conv)
qed

lemma advance_ended:
  "ended c \<Longrightarrow> trace (advance t c) = trace c \<and> collected (advance t c) = collected c"
proof (induction t c rule: advance.induct)
  case (1 t c)
  show ?case
  proof (cases "next_due t (pending (client_timers c))")
    case None
    then show ?thesis by (simp add: advance_None)
  next
    case (Some tm)
    have e: "ended (fire tm c)" using "1.prems" by (rule ended_fire)
    have "trace (advance t (fire tm c)) = trace (fire tm c)
        \<and> collected (advance t (fire tm c)) = collected (fire tm c)"
      using Some e by (rule "1.IH")
    then show ?thesis using Some "1.prems" by (simp add: advance_Some fire_ended)
  qed
qed

lemma own_due_iff:
  "own_due t c = (\<exists>tm \<in> set (pending (client_timers c)). callback tm \<noteq> None \<and> due tm \<le> t)"
  by (simp add: own_due_def list_ex_iff)

lemma foreign_handle:
  assumes "collector_inv F c" "tm \<in> set (pending (client_timers c))" "callback tm = None"
  shows "timer_handle tm < F"
  using assms by (auto simp: collector_inv_def list_all_iff timer_ok_def)

lemma own_handle:
  assumes "collector_inv F c" "tm \<in> set (pending (client_timers c))" "callback tm \<noteq> None"
  shows "F \<le> timer_handle tm"
proof -
  have "timeout_field c = Some (timer_handle tm) \<or> idletimeout_field c = Some (timer_handle tm)"
    using assms by (auto simp: collector_inv_def list_all_iff timer_ok_def)
  then show ?thesis using assms(1) by (auto simp: collector_inv_def)
qed

lemma advance_own_due:
  assumes "collector_inv F c" "\<not> ended c" "own_due t c"
  shows "ended (advance t c)
     \<and> collected (advance t c) = collected c
     \<and> (\<exists>tm \<in> set (pending (client_timers c)). \<exists>r. callback tm = Some r \<and> due tm \<le> t
          \<and> trace (advance t c) = trace c @ [EvCleanup, EvEnd (collected c) r])"
  using assms
proof (induction t c rule: advance.induct)
  case (1 t c)
  obtain own where own: "own \<in> set (pending (client_timers c))" "callback own \<noteq> None"
      "due own \<le> t"
    using "1.prems"(3) by (auto simp: own_due_iff)
  have "next_due t (pending (client_timers c)) \<noteq> None"
    using own by (auto simp: next_due_None)
  then obtain tm where nd: "next_due t (pending (client_timers c)) = Some tm" by blast
  note mem = next_due_Some [OF nd]
  show ?case
  proof (cases "callback tm")
    case (Some r)
    note f = fire_own [OF Some "1.prems"(2)]
    have "trace (advance t (fire tm c)) = trace (fire tm c)
        \<and> collected (advance t (fire tm c)) = collected (fire tm c)"
      using f(1) by (rule advance_ended)
    moreover have "ended (advance t (fire tm c))" using f(1) by (rule ended_advance)
    ultimately show ?thesis using f Some mem by (auto simp: advance_Some [OF nd])
  next
    case None
    note f = fire_foreign [OF None, of c]
    have inv: "collector_inv F (fire tm c)" using "1.prems"(1) by (rule collector_inv_fire)
    have active: "\<not> ended (fire tm c)" using "1.prems"(2) by (simp add: f)
    have "timer_handle tm < F" using "1.prems"(1) mem(1) None by (rule foreign_handle)
    moreover have "F \<le> timer_handle own" using "1.prems"(1) own(1,2) by (rule own_handle)
    ultimately have "own \<in> set (pending (client_timers (fire tm c)))"
      using own(1) by (simp add: f)
    then have due': "own_due t (fire tm c)" using own(2,3) by (auto simp: own_due_iff)
    have sub: "set (pending (client_timers (fire tm c))) \<subseteq> set (pending (client_timers c))"
      by (auto simp: f)
    have same: "trace (fire tm c) = trace c" "collected (fire tm c) = collected c"
      by (simp_all add: f)
    have "ended (advance t (fire tm c))
       \<and> collected (advance t (fire tm c)) = collected (fire tm c)
       \<and> (\<exists>x \<in> set (pending (client_timers (fire tm c))). \<exists>r. callback x = Some r \<and> due x \<le> t
          \<and> trace (advance t (fire tm c))
              = trace (fire tm c) @ [EvCleanup, EvEnd (collected (fire tm c)) r])"
      using nd inv active due' by (rule "1.IH")
    then show ?thesis using sub unfolding same advance_Some [OF nd] by blast
  qed
qed

lemma advance_no_own_due:
  assumes "\<not> ended c" "\<not> own_due t c"
  shows "\<not> ended (advance t c) \<and> trace (advance t c) = trace c
     \<and> collected (advance t c) = collected c"
  using assms
proof (induction t c rule: advance.induct)
  case (1 t c)
  show ?case
  proof (cases "next_due t (pending (client_timers c))")
    case None
    then show ?thesis using "1.prems" by (simp add: advance_None)
  next
    case (Some tm)
    note mem = next_due_Some [OF Some]
    have cb: "callback tm = None" using mem "1.prems"(2) by (auto simp: own_due_iff)
    note f = fire_foreign [OF cb, of c]
    have active: "\<not> ended (fire tm c)" using "1.prems"(1) by (simp add: f)
    have due': "\<not> own_due t (fire tm c)" using "1.prems"(2) by (auto simp: own_due_iff f)
    have "\<not> ended (advance t (fire tm c)) \<and> trace (advance t (fire tm c)) = trace (fire tm c)
       \<and> collected (advance t (fire tm c)) = collected (fire tm c)"
      using Some active due' by (rule "1.IH")
    then show ?thesis unfolding advance_Some [OF Some] by (simp add: f)
  qed
qed

subsection \<open>The timers of an active collector\<close>

lemma opt_stop: "opt_time (stop r c) = opt_time c" "opt_idle (stop r c) = opt_idle c"
  by (cases "ended c"; simp add: stop_ended stop_active)+

lemma opt_collect_part:
  "opt_time (collect_part h args c) = opt_time c" "opt_idle (collect_part h args c) = opt_idle c"
  by (simp_all add: collect_part_def split: option.splits)

lemma opt_handle:
  "opt_time (collector_handle h args c) = opt_time c"
  "opt_idle (collector_handle h args c) = opt_idle c"
  by (simp_all add: collector_handle_eq opt_stop opt_collect_part)

lemma opt_fire: "opt_time (fire tm c) = opt_time c" "opt_idle (fire tm c) = opt_idle c"
  by (cases "callback tm"; simp add: fire_def Let_def opt_stop)+

lemma opt_advance: "opt_time (advance t c) = opt_time c \<and> opt_idle (advance t c) = opt_idle c"
proof (induction t c rule: advance.induct)
  case (1 t c)
  show ?case
  proof (cases "next_due t (pending (client_timers c))")
    case None
    then show ?thesis by (simp add: advance_None)
  next
    case (Some tm)
    then show ?thesis using "1.IH" [OF Some] by (simp add: advance_Some opt_fire)
  qed
qed

lemma opt_step: "opt_time (step h c a) = opt_time c" "opt_idle (step h c a) = opt_idle c"
  by (cases a; simp add: opt_stop opt_handle opt_advance)+

lemma opt_run: "opt_time (run h acts c) = opt_time c \<and> opt_idle (run h acts c) = opt_idle c"
  unfolding run_def by (induction acts arbitrary: c) (simp_all add: opt_step)

lemma opt_new:
  "opt_time (new_collector cl time idle) = time" "opt_idle (new_collector cl time idle) = idle"
  by (simp_all add: new_collector_def client_setTimeout_def Let_def)

lemma armed_ended: "ended c \<Longrightarrow> armed D c"
  by (simp add: armed_def)

lemma armed_stop: "armed D (stop r c)"
  by (rule armed_ended) (rule ended_stop)

lemma time_armed_iff:
  "time_armed D c = (\<exists>tm \<in> set (pending (client_timers c)).
      callback tm = Some ''time'' \<and> due tm = D \<and> timeout_field c = Some (timer_handle tm))"
  by (simp add: time_armed_def list_ex_iff)

lemma idle_armed_iff:
  "idle_armed c = (\<exists>tm \<in> set (pending (client_timers c)).
      callback tm = Some ''idle''
      \<and> due tm \<le> clock (client_timers c) + node_delay (delay_of (opt_idle c))
      \<and> idletimeout_field c = Some (timer_handle tm))"
  by (simp add: idle_armed_def list_ex_iff)

lemma armed_collect_part:
  assumes inv: "collector_inv F c" and a: "armed D c"
  shows "armed D (collect_part h args c)"
proof (cases "collects h args c")
  case False
  then show ?thesis using a by (simp add: collect_part_skip)
next
  case True
  then obtain kv where kv: "handle_hook h c args = Some kv" and f: "filter_hook h args (collected c)"
    by (auto simp: collects_def)
  show ?thesis
  proof (cases "idletimeout_field c")
    case None
    show ?thesis
      unfolding collect_part_plain [OF kv f None] using a
      by (simp add: armed_def time_armed_iff idle_armed_iff)
  next
    case (Some i)
    have active: "\<not> ended c" using inv Some by (auto simp: collector_inv_def)
    have t: "time_armed D (collect_part h args c)" if tr: "truthy_num (opt_time c)"
    proof -
      obtain tm where tm: "tm \<in> set (pending (client_timers c))" "callback tm = Some ''time''"
          "due tm = D" "timeout_field c = Some (timer_handle tm)"
        using a active tr by (auto simp: armed_def time_armed_iff)
      have "timer_handle tm \<noteq> i" using inv tm(4) Some by (auto simp: collector_inv_def)
      then show ?thesis
        unfolding collect_part_idle [OF kv f Some] using tm by (auto simp: time_armed_iff)
    qed
    have i: "idle_armed (collect_part h args c)"
      unfolding collect_part_idle [OF kv f Some] by (simp add: idle_armed_iff)
    show ?thesis using t i by (simp add: armed_def opt_collect_part)
  qed
qed

lemma armed_handle:
  "collector_inv F c \<Longrightarrow> armed D c \<Longrightarrow> armed D (collector_handle h args c)"
  by (simp add: collector_handle_eq armed_stop armed_collect_part)

lemma armed_fire:
  assumes inv: "collector_inv F c" and a: "armed D c"
    and mem: "tm \<in> set (pending (client_timers c))"
  shows "armed D (fire tm c)"
proof (cases "ended c")
  case True
  then show ?thesis by (intro armed_ended ended_fire)
next
  case False
  show ?thesis
  proof (cases "callback tm")
    case (Some r)
    show ?thesis by (rule armed_ended) (rule fire_own(1) [OF Some False])
  next
    case None
    note f = fire_foreign [OF None, of c]
    have low: "timer_handle tm < F" using inv mem None by (rule foreign_handle)
    have t: "time_armed D (fire tm c)" if tr: "truthy_num (opt_time c)"
    proof -
      obtain x where x: "x \<in> set (pending (client_timers c))" "callback x = Some ''time''"
          "due x = D" "timeout_field c = Some (timer_handle x)"
        using a False tr by (auto simp: armed_def time_armed_iff)
      have "F \<le> timer_handle x" using inv x(1,2) by (intro own_handle) simp_all
      then show ?thesis using x low by (auto simp: f time_armed_iff)
    qed
    have i: "idle_armed (fire tm c)" if tr: "truthy_num (opt_idle c)"
    proof -
      obtain x where x: "x \<in> set (pending (client_timers c))" "callback x = Some ''idle''"
          "due x \<le> clock (client_timers c) + node_delay (delay_of (opt_idle c))"
          "idletimeout_field c = Some (timer_handle x)"
        using a False tr by (auto simp: armed_def idle_armed_iff)
      have "F \<le> timer_handle x" using inv x(1,2) by (intro own_handle) simp_all
      then show ?thesis using x low by (auto simp: f idle_armed_iff)
    qed
    show ?thesis using t i by (simp add: armed_def opt_fire)
  qed
qed

lemma armed_clock:
  assumes "armed D c"
  shows "armed D (c\<lparr>client_timers := (client_timers c)\<lparr>clock := max (clock (client_timers c)) t\<rparr>\<rparr>)"
  using assms by (auto simp: armed_def time_armed_iff idle_armed_iff)

lemma armed_advance: "collector_inv F c \<Longrightarrow> armed D c \<Longrightarrow> armed D (advance t c)"
proof (induction t c rule: advance.induct)
  case (1 t c)
  show ?case
  proof (cases "next_due t (pending (client_timers c))")
    case None
    then show ?thesis using "1.prems"(2) by (simp add: advance_None armed_clock)
  next
    case (Some tm)
    have "armed D (advance t (fire tm c))"
      using Some "1.prems" next_due_Some(1) [OF Some]
      by (intro "1.IH" collector_inv_fire armed_fire)
    then show ?thesis using Some by (simp add: advance_Some)
  qed
qed

lemma armed_step: "collector_inv F c \<Longrightarrow> armed D c \<Longrightarrow> armed D (step h c a)"
proof (cases a)
  case (Stop r)
  show ?thesis unfolding Stop step.simps by (rule armed_stop)
next
  case (Deliver x)
  assume "collector_inv F c" "armed D c"
  then show ?thesis unfolding Deliver step.simps by (rule armed_handle)
next
  case (Advance t)
  assume "collector_inv F c" "armed D c"
  then show ?thesis unfolding Advance step.simps by (rule armed_advance)
qed

lemma armed_run: "collector_inv F c \<Longrightarrow> armed D c \<Longrightarrow> armed D (run h acts c)"
  unfolding run_def
proof (induction acts arbitrary: c)
  case Nil
  then show ?case by simp
next
  case (Cons a acts)
  have "armed D (foldl (step h) (step h c a) acts)"
    using Cons.prems by (intro Cons.IH collector_inv_step armed_step)
  then show ?case by simp
qed

lemma armed_new:
  "armed (clock cl + node_delay (delay_of time)) (new_collector cl time idle)"
  by (simp add: armed_def time_armed_iff idle_armed_iff new_collector_def client_setTimeout_def
      Let_def)

lemma time_armed_due: "time_armed D c \<Longrightarrow> D \<le> t \<Longrightarrow> own_due t c"
  by (auto simp: time_armed_iff own_due_iff)

lemma idle_armed_due:
  "idle_armed c \<Longrightarrow> clock (client_timers c) + node_delay (delay_of (opt_idle c)) \<le> t \<Longrightarrow>
   own_due t c"
  by (fastforce simp: idle_armed_iff own_due_iff)

subsection \<open>The claims about the collector\<close>

text \<open>
  C4. Take a collector \<open>c\<close> created with any options and any subclass methods on a client
  whose armed timers, if any, are those of other code (armed before the collector was
  created, with callbacks that do not touch it), and let anything happen to it, in any
  order and number: calls of \<^verbatim>\<open>stop\<close>, events delivered, time passing (with the timers
  that fire, those of other code included). At every moment \<^verbatim>\<open>end\<close> has been
  emitted exactly once if the collector has ended, and never if it has not.

  Once it has ended, \<^verbatim>\<open>stop\<close> changes nothing (whatever the reason given), both timer
  fields are \<^verbatim>\<open>null\<close>, no timer of the collector is armed, and it stays ended whatever
  happens later.

  While it has not ended, each of the four conditions ends it, with the one \<^verbatim>\<open>end\<close>:
  \<^verbatim>\<open>stop\<close> does, with the accumulation and the reason (\<^verbatim>\<open>'user'\<close> without argument);
  time passing to \<open>t\<close> does exactly when a timer of the collector is due by \<open>t\<close>, with
  the accumulation and the reason of such a timer; an event for which \<^verbatim>\<open>postCheck\<close>
  returns a non-empty reason \<open>p\<close> does, with the reason \<open>p\<close>. And its timers are armed:
  given a truthy \<^verbatim>\<open>options.time\<close> the timer of reason \<^verbatim>\<open>'time'\<close> is armed, due
  \<^verbatim>\<open>options.time\<close> after the creation, so that the collector has ended when that time
  has passed; given a truthy \<^verbatim>\<open>options.idle\<close> a timer of reason \<^verbatim>\<open>'idle'\<close> is
  armed, due at most \<^verbatim>\<open>options.idle\<close> after the present time, so that the collector
  has ended when that time has passed with no event delivered.
\<close>

theorem collector_end_once:
  assumes cl: "foreign cl"
    and c: "c = run h acts (new_collector cl time idle)"
  shows "length (filter is_end (trace c)) = (if ended c then 1 else 0)
     \<and> (ended c \<longrightarrow>
            stop r c = c
          \<and> timeout_field c = None
          \<and> idletimeout_field c = None
          \<and> list_all (\<lambda>tm. callback tm = None) (pending (client_timers c))
          \<and> ended (run h later c))
     \<and> (\<not> ended c \<longrightarrow>
            ended (stop r c)
          \<and> filter is_end (trace (stop r c))
              = [EvEnd (collected c) (case r of None \<Rightarrow> ''user'' | Some x \<Rightarrow> x)]
          \<and> ended (advance t c) = own_due t c
          \<and> (own_due t c \<longrightarrow>
               (\<exists>tm \<in> set (pending (client_timers c)). \<exists>x.
                  callback tm = Some x \<and> due tm \<le> t
                  \<and> filter is_end (trace (advance t c)) = [EvEnd (collected c) x]))
          \<and> (truthy_num time \<longrightarrow>
               time_armed (clock cl + node_delay (delay_of time)) c
             \<and> (clock cl + node_delay (delay_of time) \<le> t \<longrightarrow> ended (advance t c)))
          \<and> (truthy_num idle \<longrightarrow>
               idle_armed c
             \<and> (clock (client_timers c) + node_delay (delay_of idle) \<le> t \<longrightarrow>
                  ended (advance t c)))
          \<and> (postCheck_hook h (collect_part h args c) args = Some p \<and> p \<noteq> [] \<longrightarrow>
               ended (collector_handle h args c)
             \<and> filter is_end (trace (collector_handle h args c))
                 = [EvEnd (collected (collector_handle h args c)) p]))"
proof -
  let ?D = "clock cl + node_delay (delay_of time)"
  have inv: "collector_inv (fresh cl) c"
    unfolding c using cl by (intro collector_inv_run collector_inv_new)
  have arm: "armed ?D c"
    unfolding c by (rule armed_run [OF collector_inv_new [OF cl] armed_new])
  have opts: "opt_time c = time" "opt_idle c = idle"
    unfolding c by (simp_all add: opt_run opt_new)
  have once: "length (filter is_end (trace c)) = (if ended c then 1 else 0)"
    using inv by (simp add: collector_inv_def)
  have after: "stop r c = c \<and> timeout_field c = None \<and> idletimeout_field c = None
      \<and> list_all (\<lambda>tm. callback tm = None) (pending (client_timers c))
      \<and> ended (run h later c)"
    if e: "ended c"
    using collector_inv_ended [OF inv e] stop_ended [OF e, of r] ended_run [OF e, of h later]
    by simp
  have before: "ended (stop r c)
      \<and> filter is_end (trace (stop r c))
          = [EvEnd (collected c) (case r of None \<Rightarrow> ''user'' | Some x \<Rightarrow> x)]
      \<and> ended (advance t c) = own_due t c
      \<and> (own_due t c \<longrightarrow>
           (\<exists>tm \<in> set (pending (client_timers c)). \<exists>x.
              callback tm = Some x \<and> due tm \<le> t
              \<and> filter is_end (trace (advance t c)) = [EvEnd (collected c) x]))
      \<and> (truthy_num time \<longrightarrow>
           time_armed ?D c \<and> (?D \<le> t \<longrightarrow> ended (advance t c)))
      \<and> (truthy_num idle \<longrightarrow>
           idle_armed c
         \<and> (clock (client_timers c) + node_delay (delay_of idle) \<le> t \<longrightarrow>
              ended (advance t c)))
      \<and> (postCheck_hook h (collect_part h args c) args = Some p \<and> p \<noteq> [] \<longrightarrow>
           ended (collector_handle h args c)
         \<and> filter is_end (trace (collector_handle h args c))
             = [EvEnd (collected (collector_handle h args c)) p])"
    if n: "\<not> ended c"
  proof -
    have none: "filter is_end (trace c) = []" using once n by simp
    have s: "ended (stop r c)" by (rule ended_stop)
    have u: "filter is_end (trace (stop r c))
          = [EvEnd (collected c) (case r of None \<Rightarrow> ''user'' | Some x \<Rightarrow> x)]"
      using none by (simp add: stop_active [OF n] reason_of_def)
    have fired: "ended (advance t c)
        \<and> (\<exists>tm \<in> set (pending (client_timers c)). \<exists>x.
              callback tm = Some x \<and> due tm \<le> t
              \<and> filter is_end (trace (advance t c)) = [EvEnd (collected c) x])"
      if d: "own_due t c"
    proof -
      note a = advance_own_due [OF inv n d]
      obtain tm x where tm: "tm \<in> set (pending (client_timers c))" "callback tm = Some x"
          "due tm \<le> t" "trace (advance t c) = trace c @ [EvCleanup, EvEnd (collected c) x]"
        using a by blast
      have "filter is_end (trace (advance t c)) = [EvEnd (collected c) x]"
        unfolding tm(4) using none by simp
      then show ?thesis using a tm(1,2,3) by blast
    qed
    have quiet: "\<not> ended (advance t c)" if "\<not> own_due t c"
      using advance_no_own_due [OF n that] by simp
    have iff: "ended (advance t c) = own_due t c" using fired quiet by blast
    have tt: "time_armed ?D c" if "truthy_num time"
      using arm n that by (simp add: armed_def opts)
    have ti: "idle_armed c" if "truthy_num idle"
      using arm n that by (simp add: armed_def opts)
    have te: "ended (advance t c)" if "truthy_num time" "?D \<le> t"
      using time_armed_due [OF tt [OF that(1)] that(2)] iff by simp
    have ie: "ended (advance t c)"
      if "truthy_num idle" "clock (client_timers c) + node_delay (delay_of idle) \<le> t"
      using idle_armed_due [OF ti [OF that(1)], of t] that(2) iff by (simp add: opts)
    have pc: "ended (collector_handle h args c)
         \<and> filter is_end (trace (collector_handle h args c))
             = [EvEnd (collected (collector_handle h args c)) p]"
      if p: "postCheck_hook h (collect_part h args c) args = Some p" "p \<noteq> []"
    proof -
      have n': "\<not> ended (collect_part h args c)" using n by (simp add: ended_collect_part)
      have "collector_inv (fresh cl) (collect_part h args c)"
        using inv by (rule collector_inv_collect_part)
      then have none': "filter is_end (trace (collect_part h args c)) = []"
        using n' by (simp add: collector_inv_def)
      have "collector_handle h args c = stop (Some p) (collect_part h args c)"
        using p by (simp add: collector_handle_eq truthy_str_def)
      then show ?thesis using none' by (simp add: stop_active [OF n'] reason_of_def)
    qed
    show ?thesis using s u iff fired tt ti te ie pc by blast
  qed
  show ?thesis using once after before by blast
qed

text \<open>
  C10. When an event is delivered to a collector that has not ended, and nothing is
  collected for it (\<^verbatim>\<open>handle\<close> returned \<^verbatim>\<open>null\<close>, or the filter rejected it),
  \<^verbatim>\<open>postCheck\<close> is still evaluated: if it returns a reason (a non-empty string), the
  collector ends with that reason, on an event that was not added to the accumulation.
\<close>

theorem postCheck_without_collection:
  assumes active: "\<not> ended c"
    and skipped: "handle_hook h c args = None \<or> \<not> filter_hook h args (collected c)"
    and post: "postCheck_hook h c args = Some r" "r \<noteq> []"
  shows "ended (collector_handle h args c)
     \<and> collected (collector_handle h args c) = collected c
     \<and> trace (collector_handle h args c) = trace c @ [EvCleanup, EvEnd (collected c) r]"
proof -
  have "collect_part h args c = c"
  proof (cases "handle_hook h c args")
    case None
    then show ?thesis by (simp add: collect_part_def)
  next
    case (Some kv)
    then have "\<not> filter_hook h args (collected c)" using skipped by simp
    then show ?thesis using Some by (simp add: collect_part_def)
  qed
  then have "collector_handle h args c = stop (Some r) c"
    using post by (simp add: collector_handle_eq truthy_str_def)
  then show ?thesis by (simp add: stop_active [OF active] reason_of_def)
qed

lemma handle_collects:
  assumes "\<And>c'. \<not> truthy_str (postCheck_hook h c' args)"
  shows "collector_handle h args c = collect_part h args c"
  using assms by (simp add: collector_handle_eq)

lemma collect_part_restart:
  assumes "collects h args c" "idletimeout_field c = Some i"
  shows "idletimeout_field (collect_part h args c) = Some (fresh (client_timers c))"
    and "pending (client_timers (collect_part h args c)) =
         filter (\<lambda>tm. timer_handle tm \<noteq> i) (pending (client_timers c))
         @ [\<lparr>timer_handle = fresh (client_timers c),
              due = clock (client_timers c) + node_delay (delay_of (opt_idle c)),
              callback = Some ''idle''\<rparr>]"
    and "ended (collect_part h args c) = ended c"
  using assms
  by (auto simp: collects_def collect_part_def client_setTimeout_def client_clearTimeout_def
      Let_def)

lemma next_due_single:
  "next_due t [tm] = (if due tm \<le> t then Some tm else None)"
  by (simp add: next_due_def)

lemma next_due_Nil: "next_due t [] = None"
  by (simp add: next_due_def)

lemma advance_single:
  assumes p: "pending (client_timers c) = [tm]" and active: "\<not> ended c"
    and cb: "callback tm = Some r"
  shows "ended (advance t c) = (due tm \<le> t)"
    and "due tm \<le> t \<Longrightarrow>
         trace (advance t c) = trace c @ [EvCleanup, EvEnd (collected c) r]"
    and "collected (advance t c) = collected c"
proof -
  let ?c1 = "c\<lparr>client_timers := (client_timers c)
      \<lparr>pending := filter (\<lambda>x. timer_handle x \<noteq> timer_handle tm) (pending (client_timers c)),
       clock := max (clock (client_timers c)) (due tm)\<rparr>\<rparr>"
  have n1: "\<not> ended ?c1" using active by simp
  have f: "ended (fire tm c)" "pending (client_timers (fire tm c)) = []"
    "trace (fire tm c) = trace c @ [EvCleanup, EvEnd (collected c) r]"
    "collected (fire tm c) = collected c"
    using p active cb
    by (simp_all add: fire_def Let_def stop_active pending_clear_opt reason_of_def)
  have late: "advance t c = (fire tm c)\<lparr>client_timers := (client_timers (fire tm c))
      \<lparr>clock := max (clock (client_timers (fire tm c))) t\<rparr>\<rparr>" if "due tm \<le> t"
  proof -
    have "next_due t (pending (client_timers c)) = Some tm"
      using that p by (simp add: next_due_single)
    then have "advance t c = advance t (fire tm c)" by (rule advance_Some)
    moreover have "next_due t (pending (client_timers (fire tm c))) = None"
      using f(2) by (simp add: next_due_Nil)
    ultimately show ?thesis by (simp add: advance_None)
  qed
  have early: "advance t c = c\<lparr>client_timers := (client_timers c)
      \<lparr>clock := max (clock (client_timers c)) t\<rparr>\<rparr>" if "\<not> due tm \<le> t"
  proof -
    have "next_due t (pending (client_timers c)) = None"
      using that p by (simp add: next_due_single)
    then show ?thesis by (rule advance_None)
  qed
  show "ended (advance t c) = (due tm \<le> t)"
    using late early f(1) active by (cases "due tm \<le> t") simp_all
  show "due tm \<le> t \<Longrightarrow>
         trace (advance t c) = trace c @ [EvCleanup, EvEnd (collected c) r]"
    using late f(3) by simp
  show "collected (advance t c) = collected c"
    using late early f(4) by (cases "due tm \<le> t") simp_all
qed

lemma idle_held_stop: "idle_held (stop r c)"
  by (simp add: idle_held_def ended_stop)

lemma idle_held_collect_part: "idle_held c \<Longrightarrow> idle_held (collect_part h args c)"
  by (auto simp: idle_held_def collect_part_def split: option.splits)

lemma idle_held_handle: "idle_held c \<Longrightarrow> idle_held (collector_handle h args c)"
  by (simp add: collector_handle_eq idle_held_stop idle_held_collect_part)

lemma idle_held_fire: "idle_held c \<Longrightarrow> idle_held (fire tm c)"
proof (cases "callback tm")
  case None
  assume "idle_held c"
  then show ?thesis by (simp add: fire_foreign [OF None] idle_held_def)
next
  case (Some r)
  have "ended (fire tm c)"
    by (cases "ended c") (simp_all add: ended_fire fire_own(1) [OF Some])
  then show ?thesis by (simp add: idle_held_def)
qed

lemma idle_held_advance: "idle_held c \<Longrightarrow> idle_held (advance t c)"
proof (induction t c rule: advance.induct)
  case (1 t c)
  show ?case
  proof (cases "next_due t (pending (client_timers c))")
    case None
    then show ?thesis using "1.prems" by (simp add: advance_None idle_held_def)
  next
    case (Some tm)
    have "idle_held (fire tm c)" using "1.prems" by (rule idle_held_fire)
    then have "idle_held (advance t (fire tm c))" using Some by (intro "1.IH")
    then show ?thesis using Some by (simp add: advance_Some)
  qed
qed

lemma idle_held_step: "idle_held c \<Longrightarrow> idle_held (step h c a)"
proof (cases a)
  case (Stop r)
  show ?thesis unfolding Stop step.simps by (rule idle_held_stop)
next
  case (Deliver x)
  assume "idle_held c"
  then show ?thesis unfolding Deliver step.simps by (rule idle_held_handle)
next
  case (Advance t)
  assume "idle_held c"
  then show ?thesis unfolding Advance step.simps by (rule idle_held_advance)
qed

lemma idle_held_run: "idle_held c \<Longrightarrow> idle_held (run h acts c)"
  unfolding run_def by (induction acts arbitrary: c) (simp_all add: idle_held_step)

lemma idle_held_new: "idle_held (new_collector cl time idle)"
  by (simp add: idle_held_def new_collector_def client_setTimeout_def Let_def)

lemma idle_held_reachable:
  "truthy_num (opt_idle (run h acts (new_collector cl time idle))) \<Longrightarrow>
   \<not> ended (run h acts (new_collector cl time idle)) \<Longrightarrow>
   idletimeout_field (run h acts (new_collector cl time idle)) \<noteq> None"
  using idle_held_run [OF idle_held_new, of h acts cl time idle]
  by (simp add: idle_held_def)

lemma idle_timer_held:
  "truthy_num idle \<Longrightarrow> \<not> ended (run h acts (new_collector cl time idle)) \<Longrightarrow>
   idletimeout_field (run h acts (new_collector cl time idle)) \<noteq> None"
  using idle_held_reachable [of h acts cl time idle] by (simp add: opt_run opt_new)

text \<open>
  C8. Let \<^verbatim>\<open>postCheck\<close> return nothing for an event. First, whenever the event is
  collected by a collector that holds an idle timer \<open>i\<close>, the listener clears \<open>i\<close> and
  arms a new idle timer, due \<^verbatim>\<open>options.idle\<close> after the present time, which the field
  holds afterwards. Second, for a collector created at time 0 with only \<^verbatim>\<open>idle: d\<close>
  (\<open>1 \<le> d \<le> 2\<^sup>3\<^sup>1 - 1\<close>) that collects the event at time \<open>t0 < d\<close> and receives nothing
  more: at any later time \<open>t\<close> it has ended exactly when \<open>t0 + d \<le> t\<close>, and then with
  the one \<^verbatim>\<open>end\<close> of reason \<^verbatim>\<open>'idle'\<close>. With \<open>d = 100\<close> and \<open>t0 = 90\<close>: still active
  at 150, ended from 190 on. Third, whatever has happened to a collector created with a
  truthy \<^verbatim>\<open>options.idle\<close>, as long as it has not ended it holds an idle timer, so the
  first part applies to every collection of an active collector configured with an idle
  timeout.
\<close>

theorem idle_timer_reset:
  fixes h :: "('a, 'k, 'v) hooks"
  assumes post: "\<And>c'. \<not> truthy_str (postCheck_hook h c' args)"
  shows "(\<forall>c i. collects h args c \<and> idletimeout_field c = Some i \<longrightarrow>
            idletimeout_field (collector_handle h args c) = Some (fresh (client_timers c))
          \<and> pending (client_timers (collector_handle h args c)) =
              filter (\<lambda>tm. timer_handle tm \<noteq> i) (pending (client_timers c))
              @ [\<lparr>timer_handle = fresh (client_timers c),
                   due = clock (client_timers c) + node_delay (delay_of (opt_idle c)),
                   callback = Some ''idle''\<rparr>])
       \<and> (\<forall>d t0 t. 1 \<le> d \<and> d \<le> 2147483647 \<and> t0 < d \<and> t0 \<le> t
            \<and> collects h args (advance t0 (new_collector (new_client 0) None (Some d))) \<longrightarrow>
            (ended (advance t (collector_handle h args
                (advance t0 (new_collector (new_client 0) None (Some d))))) = (t0 + d \<le> t))
          \<and> (t0 + d \<le> t \<longrightarrow>
               filter is_end (trace (advance t (collector_handle h args
                 (advance t0 (new_collector (new_client 0) None (Some d))))))
               = [EvEnd (collected (collector_handle h args
                    (advance t0 (new_collector (new_client 0) None (Some d))))) ''idle'']))
       \<and> (\<forall>h' acts cl time idle.
            truthy_num idle \<and> \<not> ended (run h' acts (new_collector cl time idle)) \<longrightarrow>
            idletimeout_field (run h' acts (new_collector cl time idle)
              :: ('a, 'k, 'v) collector) \<noteq> None)"
proof (intro conjI allI impI)
  fix c :: "('a, 'k, 'v) collector" and i
  assume a: "collects h args c \<and> idletimeout_field c = Some i"
  show "idletimeout_field (collector_handle h args c) = Some (fresh (client_timers c))"
    using a collect_part_restart(1) [of h args c i] by (simp add: handle_collects [OF post])
  show "pending (client_timers (collector_handle h args c)) =
      filter (\<lambda>tm. timer_handle tm \<noteq> i) (pending (client_timers c))
      @ [\<lparr>timer_handle = fresh (client_timers c),
           due = clock (client_timers c) + node_delay (delay_of (opt_idle c)),
           callback = Some ''idle''\<rparr>]"
    using a collect_part_restart(2) [of h args c i] by (simp add: handle_collects [OF post])
next
  fix d t0 t :: nat
  let ?c0 = "new_collector (new_client 0) None (Some d) :: ('a, 'k, 'v) collector"
  let ?c1 = "advance t0 ?c0"
  let ?c2 = "collector_handle h args ?c1"
  assume a: "1 \<le> d \<and> d \<le> 2147483647 \<and> t0 < d \<and> t0 \<le> t \<and> collects h args ?c1"
  have d: "node_delay d = d" using a by (simp add: node_delay_def)
  have p0: "pending (client_timers ?c0) = [\<lparr>timer_handle = 0, due = d, callback = Some ''idle''\<rparr>]"
    and i0: "idletimeout_field ?c0 = Some 0" and e0: "\<not> ended ?c0"
    and f0: "fresh (client_timers ?c0) = 1" and k0: "clock (client_timers ?c0) = 0"
    and o0: "opt_idle ?c0 = Some d" and t0: "trace ?c0 = []"
    using a d
    by (simp_all add: new_collector_def new_client_def truthy_num_def client_setTimeout_def
        delay_of_def Let_def)
  have "next_due t0 (pending (client_timers ?c0)) = None"
    using a by (simp add: p0 next_due_single)
  then have c1: "?c1 = ?c0\<lparr>client_timers := (client_timers ?c0)
      \<lparr>clock := max (clock (client_timers ?c0)) t0\<rparr>\<rparr>"
    by (rule advance_None)
  have p1: "pending (client_timers ?c1) = [\<lparr>timer_handle = 0, due = d, callback = Some ''idle''\<rparr>]"
    and i1: "idletimeout_field ?c1 = Some 0" and e1: "\<not> ended ?c1"
    and f1: "fresh (client_timers ?c1) = 1" and k1: "clock (client_timers ?c1) = t0"
    and o1: "opt_idle ?c1 = Some d" and t1: "trace ?c1 = []"
    unfolding c1 using p0 i0 e0 f0 k0 o0 t0 by simp_all
  have col: "collects h args ?c1" using a by simp
  have c2: "?c2 = collect_part h args ?c1" by (rule handle_collects [OF post])
  have p2: "pending (client_timers ?c2) =
      [\<lparr>timer_handle = 1, due = t0 + d, callback = Some ''idle''\<rparr>]"
    unfolding c2 collect_part_restart(2) [OF col i1] by (simp add: p1 f1 k1 o1 delay_of_def d)
  have e2: "\<not> ended ?c2"
    unfolding c2 collect_part_restart(3) [OF col i1] by (rule e1)
  have t2: "filter is_end (trace ?c2) = []"
    unfolding c2 using t1 by (simp add: collect_part_def split: option.splits)
  show "ended (advance t ?c2) = (t0 + d \<le> t)"
    using advance_single(1) [OF p2 e2, of "''idle''" t] by simp
  show "filter is_end (trace (advance t ?c2)) = [EvEnd (collected ?c2) ''idle'']"
    if "t0 + d \<le> t"
    using advance_single(2) [OF p2 e2, of "''idle''" t] that t2 by simp
next
  fix h' :: "('a, 'k, 'v) hooks" and acts cl time idle
  assume "truthy_num idle \<and> \<not> ended (run h' acts (new_collector cl time idle))"
  then show "idletimeout_field (run h' acts (new_collector cl time idle)) \<noteq> None"
    by (intro idle_timer_held) simp_all
qed

theorem collector_end_once_witness:
  "foreign (new_client 0) \<and> foreign ex_busy_client
   \<and> ended (run ex_hooks ex_lifetime (new_collector (new_client 0) (Some 500) (Some 100)))
   \<and> length (filter is_end
        (trace (run ex_hooks ex_lifetime (new_collector (new_client 0) (Some 500) (Some 100))))) = 1
   \<and> stop (Some ''again'') (run ex_hooks ex_lifetime (new_collector (new_client 0) (Some 500) (Some 100)))
       = run ex_hooks ex_lifetime (new_collector (new_client 0) (Some 500) (Some 100))
   \<and> \<not> ended ex_timed_collector
   \<and> filter is_end (trace ex_timed_collector) = []
   \<and> ended (stop None ex_timed_collector)
   \<and> filter is_end (trace (stop None ex_timed_collector)) = [EvEnd [] ''user'']
   \<and> truthy_num (Some 50)
   \<and> time_armed 1050 ex_timed_collector
   \<and> \<not> ended (advance 1049 ex_timed_collector)
   \<and> ended (advance 1050 ex_timed_collector)
   \<and> filter is_end (trace (advance 1050 ex_timed_collector)) = [EvEnd [] ''time'']
   \<and> postCheck_hook ex_hooks (collect_part ex_hooks ''last'' ex_timed_collector) ''last''
       = Some ''limit''
   \<and> ended (collector_handle ex_hooks ''last'' ex_timed_collector)
   \<and> filter is_end (trace (collector_handle ex_hooks ''last'' ex_timed_collector))
       = [EvEnd [(''last'', ''last'')] ''limit'']"
proof -
  let ?c = "run ex_hooks ex_lifetime (new_collector (new_client 0) (Some 500) (Some 100))"
  have f0: "foreign (new_client 0)" by (simp add: foreign_def new_client_def)
  have f1: "foreign ex_busy_client" by (simp add: foreign_def ex_busy_client_def)
  have e: "ended ?c" by code_simp
  have start: "ex_timed_collector = run ex_hooks [] (new_collector ex_busy_client (Some 50) None)"
    by (simp add: ex_timed_collector_def run_def)
  have n: "\<not> ended ex_timed_collector" by code_simp
  have tn: "truthy_num (Some 50)" by (simp add: truthy_num_def)
  have col: "collected ex_timed_collector = []" by code_simp
  have pen: "pending (client_timers ex_timed_collector)
      = [\<lparr>timer_handle = 0, due = 1020, callback = None\<rparr>,
         \<lparr>timer_handle = 1, due = 1050, callback = Some ''time''\<rparr>]"
    by code_simp
  have d: "clock ex_busy_client + node_delay (delay_of (Some 50)) = 1050" by code_simp
  have due: "own_due 1050 ex_timed_collector" "\<not> own_due 1049 ex_timed_collector"
    by (simp_all add: own_due_def pen)
  have pc: "postCheck_hook ex_hooks (collect_part ex_hooks ''last'' ex_timed_collector) ''last''
      = Some ''limit''"
    by (simp add: ex_hooks_def)
  have got: "collected (collector_handle ex_hooks ''last'' ex_timed_collector)
      = [(''last'', ''last'')]"
    by code_simp
  note t = collector_end_once [where cl = "new_client 0" and h = ex_hooks and acts = ex_lifetime
      and time = "Some 500" and idle = "Some 100" and r = "Some ''again''" and later = "[]",
      OF f0 refl]
  note u = collector_end_once [where h = ex_hooks and r = None and later = "[]"
      and args = "''last''" and p = "''limit''" and t = 0, OF f1 start]
  note v = collector_end_once [where h = ex_hooks and r = None and later = "[]"
      and args = "''last''" and p = "''limit''" and t = 1049, OF f1 start]
  note w = collector_end_once [where h = ex_hooks and r = None and later = "[]"
      and args = "''last''" and p = "''limit''" and t = 1050, OF f1 start]
  have once: "length (filter is_end (trace ?c)) = 1"
    using t [THEN conjunct1] e by simp
  have never: "filter is_end (trace ex_timed_collector) = []"
    using u [THEN conjunct1] n by simp
  note after = t [THEN conjunct2, THEN conjunct1, THEN mp, OF e]
  note before = u [THEN conjunct2, THEN conjunct2, THEN mp, OF n]
  note before1049 = v [THEN conjunct2, THEN conjunct2, THEN mp, OF n]
  note before1050 = w [THEN conjunct2, THEN conjunct2, THEN mp, OF n]
  have user: "filter is_end (trace (stop None ex_timed_collector)) = [EvEnd [] ''user'']"
    using before [THEN conjunct2, THEN conjunct1] by (simp add: col)
  have early: "\<not> ended (advance 1049 ex_timed_collector)"
    using before1049 [THEN conjunct2, THEN conjunct2, THEN conjunct1] due(2) by simp
  have late: "ended (advance 1050 ex_timed_collector)"
    using before1050 [THEN conjunct2, THEN conjunct2, THEN conjunct1] due(1) by simp
  have reason: "filter is_end (trace (advance 1050 ex_timed_collector)) = [EvEnd [] ''time'']"
    using before1050 [THEN conjunct2, THEN conjunct2, THEN conjunct2, THEN conjunct1,
        THEN mp, OF due(1)]
    by (simp add: pen col)
  have armed: "time_armed 1050 ex_timed_collector"
    using before [THEN conjunct2, THEN conjunct2, THEN conjunct2, THEN conjunct2,
        THEN conjunct1, THEN mp, OF tn, THEN conjunct1]
    by (simp only: d)
  note post = before [THEN conjunct2, THEN conjunct2, THEN conjunct2,
      THEN conjunct2, THEN conjunct2, THEN conjunct2, THEN mp, OF conjI, OF pc]
  have limit: "ended (collector_handle ex_hooks ''last'' ex_timed_collector)"
    "filter is_end (trace (collector_handle ex_hooks ''last'' ex_timed_collector))
       = [EvEnd [(''last'', ''last'')] ''limit'']"
    using post by (simp_all add: got)
  show ?thesis
    by (intro conjI f0 f1 e once after [THEN conjunct1] n never before [THEN conjunct1]
        user tn armed early late reason pc limit)
qed

theorem postCheck_without_collection_witness:
  "\<not> ended ex_idle_collector
   \<and> handle_hook ex_hooks ex_idle_collector ''skip'' = None
   \<and> postCheck_hook ex_hooks ex_idle_collector ''skip'' = Some ''limit''
   \<and> ''limit'' \<noteq> []
   \<and> ended (collector_handle ex_hooks ''skip'' ex_idle_collector)
   \<and> collected (collector_handle ex_hooks ''skip'' ex_idle_collector) = collected ex_idle_collector
   \<and> trace (collector_handle ex_hooks ''skip'' ex_idle_collector)
       = trace ex_idle_collector @ [EvCleanup, EvEnd (collected ex_idle_collector) ''limit'']"
proof -
  have a: "\<not> ended ex_idle_collector"
    by (simp add: ex_idle_collector_def new_collector_def truthy_num_def client_setTimeout_def
        Let_def)
  have s: "handle_hook ex_hooks ex_idle_collector ''skip'' = None"
    by (simp add: ex_hooks_def)
  have p: "postCheck_hook ex_hooks ex_idle_collector ''skip'' = Some ''limit''"
    by (simp add: ex_hooks_def)
  have r: "''limit'' \<noteq> []" by simp
  note t = postCheck_without_collection [OF a disjI1 p r, OF s]
  show ?thesis
    by (intro conjI a s p r t [THEN conjunct1] t [THEN conjunct2, THEN conjunct1]
        t [THEN conjunct2, THEN conjunct2])
qed

theorem idle_timer_reset_witness:
  "(\<forall>c'. \<not> truthy_str (postCheck_hook ex_hooks c' ''m1''))
   \<and> collects ex_hooks ''m1'' (advance 90 ex_idle_collector)
   \<and> idletimeout_field (advance 90 ex_idle_collector) = Some 0
   \<and> idletimeout_field (collector_handle ex_hooks ''m1'' (advance 90 ex_idle_collector))
       = Some (fresh (client_timers (advance 90 ex_idle_collector)))
   \<and> \<not> ended (advance 150 (collector_handle ex_hooks ''m1'' (advance 90 ex_idle_collector)))
   \<and> \<not> ended (advance 189 (collector_handle ex_hooks ''m1'' (advance 90 ex_idle_collector)))
   \<and> ended (advance 190 (collector_handle ex_hooks ''m1'' (advance 90 ex_idle_collector)))
   \<and> filter is_end
        (trace (advance 190 (collector_handle ex_hooks ''m1'' (advance 90 ex_idle_collector))))
       = [EvEnd (collected (collector_handle ex_hooks ''m1'' (advance 90 ex_idle_collector)))
            ''idle'']
   \<and> truthy_num (Some 100)
   \<and> idletimeout_field (run ex_hooks [Advance 90, Deliver ''m1'', Advance 150]
         (new_collector (new_client 0) None (Some 100))) \<noteq> None"
proof -
  have post: "\<not> truthy_str (postCheck_hook ex_hooks c' ''m1'')" for c'
    by (simp add: ex_hooks_def truthy_str_def)
  have col: "collects ex_hooks ''m1'' (advance 90 (new_collector (new_client 0) None (Some 100)))"
    by (simp add: collects_def ex_hooks_def)
  have fld: "idletimeout_field (advance 90 ex_idle_collector) = Some 0" by code_simp
  note all = idle_timer_reset [where h = ex_hooks and args = "''m1''", OF post]
  note restart = all [THEN conjunct1, rule_format, of "advance 90 ex_idle_collector" 0]
  note t = all [THEN conjunct2, THEN conjunct1, rule_format]
  note held = all [THEN conjunct2, THEN conjunct2, rule_format, of "Some 100" ex_hooks
      "[Advance 90, Deliver ''m1'', Advance 150]" "new_client 0" None]
  have tn: "truthy_num (Some 100)" by (simp add: truthy_num_def)
  have active: "\<not> ended (run ex_hooks [Advance 90, Deliver ''m1'', Advance 150]
         (new_collector (new_client 0) None (Some 100)))" by code_simp
  have h: "idletimeout_field (run ex_hooks [Advance 90, Deliver ''m1'', Advance 150]
         (new_collector (new_client 0) None (Some 100))) \<noteq> None"
    using held tn active by blast
  have rs: "idletimeout_field (collector_handle ex_hooks ''m1'' (advance 90 ex_idle_collector))
       = Some (fresh (client_timers (advance 90 ex_idle_collector)))"
    using restart col fld by (simp add: ex_idle_collector_def)
  have at: "(ended (advance t (collector_handle ex_hooks ''m1''
                (advance 90 (new_collector (new_client 0) None (Some 100))))) = (90 + 100 \<le> t))
          \<and> (90 + 100 \<le> t \<longrightarrow>
               filter is_end (trace (advance t (collector_handle ex_hooks ''m1''
                 (advance 90 (new_collector (new_client 0) None (Some 100))))))
               = [EvEnd (collected (collector_handle ex_hooks ''m1''
                    (advance 90 (new_collector (new_client 0) None (Some 100))))) ''idle''])"
    if "90 \<le> t" for t
    using t [of 100 90 t] that col by simp
  have a150: "\<not> ended (advance 150 (collector_handle ex_hooks ''m1'' (advance 90 ex_idle_collector)))"
    using at [of 150] by (simp add: ex_idle_collector_def)
  have a189: "\<not> ended (advance 189 (collector_handle ex_hooks ''m1'' (advance 90 ex_idle_collector)))"
    using at [of 189] by (simp add: ex_idle_collector_def)
  have a190: "ended (advance 190 (collector_handle ex_hooks ''m1'' (advance 90 ex_idle_collector)))"
    using at [of 190] by (simp add: ex_idle_collector_def)
  have r190: "filter is_end
        (trace (advance 190 (collector_handle ex_hooks ''m1'' (advance 90 ex_idle_collector))))
       = [EvEnd (collected (collector_handle ex_hooks ''m1'' (advance 90 ex_idle_collector)))
            ''idle'']"
    using at [of 190] by (simp add: ex_idle_collector_def)
  have col': "collects ex_hooks ''m1'' (advance 90 ex_idle_collector)"
    using col by (simp add: ex_idle_collector_def)
  show ?thesis
    using post by (intro conjI allI col' fld rs a150 a189 a190 r190 tn h) simp
qed

section \<open>Properties of the message partial resolution\<close>

lemma getPayload_existing:
  "manager_get manager i = Some m \<Longrightarrow>
   getPayload cl patch_of data manager i partialType cache c = Inr (Some m, manager)"
  by (simp add: getPayload_def)

text \<open>
  C5 as stated fails in its second part: when the message is found under \<^verbatim>\<open>id\<close>,
  \<^verbatim>\<open>getPayload\<close> returns it at once, from its last line; the call of \<^verbatim>\<open>_patch\<close> sits
  in the branch taken when that lookup fails. Here the cached message has a \<^verbatim>\<open>_patch\<close>
  that would change it, the cache flag is true, and the message comes back as it was.
\<close>

theorem cached_message_unpatched_counterexample:
  "manager_get (messages ex_channel) (Some ''m1'') = Some ex_message
   \<and> getPayload ex_action_client ex_patch (ex_data ''m1'') (messages ex_channel) (Some ''m1'')
         ''MESSAGE'' True MessageClass
       = Inr (Some ex_message, messages ex_channel)
   \<and> the (ex_patch ex_message) (ex_data ''m1'') \<noteq> ex_message"
  by (simp add: getPayload_def manager_get_def coll_get_def ex_channel_def ex_message_def
      ex_patch_def ex_data_def Let_def)

text \<open>
  C5, amended. When the message is in the store under \<^verbatim>\<open>id\<close>, \<^verbatim>\<open>getPayload\<close> returns
  the cached instance as it is and leaves the store as it is, whatever the cache flag and
  whether or not the entity has a patch function. \<^verbatim>\<open>getMessage\<close> returns
  \<^verbatim>\<open>data.message\<close> when the event carries one, and otherwise, through \<^verbatim>\<open>getPayload\<close>,
  the instance cached under \<^verbatim>\<open>data.message_id || data.id\<close>.
\<close>

theorem cached_message_returned:
  "(manager_get manager i = Some m \<longrightarrow>
      getPayload cl patch_of data manager i partialType cache c = Inr (Some m, manager))
   \<and> (data_message data = None
        \<and> manager_get (messages chan) (or_id (data_message_id data) (data_id data)) = Some m \<longrightarrow>
      getMessage cl patch_of MESSAGE data chan cache = Inr (Some m, messages chan))
   \<and> (data_message data = Some m' \<longrightarrow>
      getMessage cl patch_of MESSAGE data chan cache = Inr (Some m', messages chan))"
  by (simp add: getMessage_def getPayload_existing)

theorem cached_message_returned_witness:
  "manager_get (messages ex_channel) (Some ''m1'') = Some ex_message
   \<and> getPayload ex_action_client ex_patch (ex_data ''m1'') (messages ex_channel) (Some ''m1'')
         ''MESSAGE'' True MessageClass
       = Inr (Some ex_message, messages ex_channel)
   \<and> data_message (ex_data ''m1'') = None
   \<and> manager_get (messages ex_channel)
         (or_id (data_message_id (ex_data ''m1'')) (data_id (ex_data ''m1''))) = Some ex_message
   \<and> getMessage ex_action_client ex_patch ''MESSAGE'' (ex_data ''m1'') ex_channel True
       = Inr (Some ex_message, messages ex_channel)
   \<and> data_message ((ex_data ''m1'')\<lparr>data_message := Some ex_stub\<rparr>) = Some ex_stub
   \<and> getMessage ex_action_client ex_patch ''MESSAGE''
         ((ex_data ''m1'')\<lparr>data_message := Some ex_stub\<rparr>) ex_channel True
       = Inr (Some ex_stub, messages ex_channel)"
proof -
  have a: "manager_get (messages ex_channel) (Some ''m1'') = Some ex_message"
    by (simp add: manager_get_def coll_get_def ex_channel_def)
  have b: "data_message (ex_data ''m1'') = None" by (simp add: ex_data_def)
  have c: "manager_get (messages ex_channel)
         (or_id (data_message_id (ex_data ''m1'')) (data_id (ex_data ''m1''))) = Some ex_message"
    by (simp add: manager_get_def coll_get_def ex_channel_def ex_data_def or_id_def truthy_id_def)
  have d: "data_message ((ex_data ''m1'')\<lparr>data_message := Some ex_stub\<rparr>) = Some ex_stub"
    by simp
  note t = cached_message_returned [where manager = "messages ex_channel" and i = "Some ''m1''"
      and m = ex_message and cl = ex_action_client and patch_of = ex_patch
      and data = "ex_data ''m1''" and partialType = "''MESSAGE''" and cache = True
      and c = MessageClass and chan = ex_channel and MESSAGE = "''MESSAGE''"]
  note u = cached_message_returned [where cl = ex_action_client and patch_of = ex_patch
      and data = "(ex_data ''m1'')\<lparr>data_message := Some ex_stub\<rparr>" and m' = ex_stub
      and cache = True and chan = ex_channel and MESSAGE = "''MESSAGE''"]
  show ?thesis
    by (intro conjI a b c d t [THEN conjunct1, THEN mp, OF a]
        t [THEN conjunct2, THEN conjunct1, THEN mp, OF conjI, OF b c]
        u [THEN conjunct2, THEN conjunct2, THEN mp, OF d])
qed

lemma getPayload_stub:
  assumes absent: "manager_get manager M = None"
    and allowed: "partialType \<in> set (partials cl)"
    and known: "coll_get (channels cl) (data_channel_id data) = Some chan"
    and about: "data_id data = M"
    and bare: "data_content data = None" "data_author data = None"
  shows "getPayload cl patch_of data manager M partialType cache MessageClass =
           Inr (Some (stub_message M chan),
                if cache then coll_set manager M (Some (stub_message M chan)) else manager)"
proof -
  have "or_id M (data_id data) = M" using about by (simp add: or_id_def)
  then show ?thesis
    using assms
    by (simp add: getPayload_def new_Message_def stub_message_def)
qed

lemma getMessage_delegates:
  "data_message data = None \<Longrightarrow>
   getMessage cl patch_of MESSAGE data chan cache =
     getPayload cl patch_of
       \<lparr>data_id = or_id (data_message_id data) (data_id data), data_message_id = None,
        data_message = None, data_channel_id = ch_id chan,
        data_guild_id = or_id (data_guild_id data) (ch_guild chan),
        data_content = None, data_author = None\<rparr>
       (messages chan) (or_id (data_message_id data) (data_id data)) MESSAGE cache MessageClass"
  by (simp add: getMessage_def Let_def)

text \<open>
  C9. Let message partials be allowed in the client options (\<open>partialType\<close> is the
  message partial type), and let the channel of the data be one the client caches, the
  context a stub is built from. When \<^verbatim>\<open>getPayload\<close> is called with the
  \<^verbatim>\<open>Message\<close> class for an identifier \<open>M\<close> that is absent from the store, with data
  about \<open>M\<close> that carry no content and no author, it returns the stub of \<open>M\<close> and
  the store with the stub added under \<open>M\<close> when the cache flag is true, unchanged
  otherwise. \<^verbatim>\<open>getMessage\<close>, for an event without \<^verbatim>\<open>data.message\<close> about a message
  \<open>M\<close> absent from the channel's store, calls it just so and returns the same. The
  stub has identifier \<open>M\<close>, no content and no author, and is partial. The result is a
  function of the client's options, its channel cache and the store alone: there is no
  request to the network in these functions.
\<close>

theorem stub_message_created:
  assumes allowed: "partialType \<in> set (partials cl)"
    and known: "coll_get (channels cl) cid = Some chan"
  shows "(manager_get manager M = None \<and> data_channel_id data = cid \<and> data_id data = M
          \<and> data_content data = None \<and> data_author data = None \<longrightarrow>
            getPayload cl patch_of data manager M partialType cache MessageClass =
              Inr (Some (stub_message M chan),
                   if cache then coll_set manager M (Some (stub_message M chan)) else manager))
     \<and> (manager_get (messages chan0) M = None \<and> ch_id chan0 = cid
          \<and> data_message ev = None \<and> or_id (data_message_id ev) (data_id ev) = M \<longrightarrow>
            getMessage cl patch_of partialType ev chan0 cache =
              Inr (Some (stub_message M chan),
                   if cache then coll_set (messages chan0) M (Some (stub_message M chan))
                   else messages chan0))
     \<and> msg_id (stub_message M chan) = M
     \<and> content (stub_message M chan) = None
     \<and> author (stub_message M chan) = None
     \<and> partial (stub_message M chan)"
proof (intro conjI impI)
  assume a: "manager_get manager M = None \<and> data_channel_id data = cid \<and> data_id data = M
          \<and> data_content data = None \<and> data_author data = None"
  show "getPayload cl patch_of data manager M partialType cache MessageClass =
      Inr (Some (stub_message M chan),
           if cache then coll_set manager M (Some (stub_message M chan)) else manager)"
    using a known by (intro getPayload_stub allowed) simp_all
next
  assume a: "manager_get (messages chan0) M = None \<and> ch_id chan0 = cid
          \<and> data_message ev = None \<and> or_id (data_message_id ev) (data_id ev) = M"
  let ?d = "\<lparr>data_id = M, data_message_id = None, data_message = None,
     data_channel_id = ch_id chan0, data_guild_id = or_id (data_guild_id ev) (ch_guild chan0),
     data_content = None, data_author = None\<rparr>"
  have "getMessage cl patch_of partialType ev chan0 cache =
      getPayload cl patch_of ?d (messages chan0) M partialType cache MessageClass"
    using a getMessage_delegates [of ev cl patch_of partialType chan0 cache] by simp
  moreover have "getPayload cl patch_of ?d (messages chan0) M partialType cache MessageClass =
      Inr (Some (stub_message M chan),
           if cache then coll_set (messages chan0) M (Some (stub_message M chan))
           else messages chan0)"
    using a known by (intro getPayload_stub allowed) simp_all
  ultimately show "getMessage cl patch_of partialType ev chan0 cache =
      Inr (Some (stub_message M chan),
           if cache then coll_set (messages chan0) M (Some (stub_message M chan))
           else messages chan0)"
    by simp
qed (simp_all add: stub_message_def partial_def)

theorem stub_message_created_witness:
  "''MESSAGE'' \<in> set (partials ex_action_client)
   \<and> coll_get (channels ex_action_client) (Some ''c1'') = Some ex_channel
   \<and> manager_get (messages ex_channel) (Some ''m2'') = None
   \<and> ch_id ex_channel = Some ''c1''
   \<and> data_message (ex_data ''m2'') = None
   \<and> or_id (data_message_id (ex_data ''m2'')) (data_id (ex_data ''m2'')) = Some ''m2''
   \<and> getMessage ex_action_client ex_patch ''MESSAGE'' (ex_data ''m2'') ex_channel True
       = Inr (Some ex_stub, coll_set (messages ex_channel) (Some ''m2'') (Some ex_stub))
   \<and> getPayload ex_action_client ex_patch
         \<lparr>data_id = Some ''m2'', data_message_id = None, data_message = None,
          data_channel_id = Some ''c1'', data_guild_id = Some ''g'',
          data_content = None, data_author = None\<rparr>
         (messages ex_channel) (Some ''m2'') ''MESSAGE'' False MessageClass
       = Inr (Some ex_stub, messages ex_channel)
   \<and> msg_id ex_stub = Some ''m2''
   \<and> partial ex_stub"
proof -
  let ?d = "\<lparr>data_id = Some ''m2'', data_message_id = None, data_message = None,
          data_channel_id = Some ''c1'', data_guild_id = Some ''g'',
          data_content = None, data_author = None\<rparr>"
  have a: "''MESSAGE'' \<in> set (partials ex_action_client)"
    by (simp add: ex_action_client_def)
  have b: "coll_get (channels ex_action_client) (Some ''c1'') = Some ex_channel"
    by (simp add: ex_action_client_def coll_get_def)
  have c: "manager_get (messages ex_channel) (Some ''m2'') = None"
    by (simp add: manager_get_def coll_get_def ex_channel_def)
  have d: "ch_id ex_channel = Some ''c1''" by (simp add: ex_channel_def)
  have e: "data_message (ex_data ''m2'') = None" by (simp add: ex_data_def)
  have f: "or_id (data_message_id (ex_data ''m2'')) (data_id (ex_data ''m2'')) = Some ''m2''"
    by (simp add: ex_data_def or_id_def truthy_id_def)
  have s: "stub_message (Some ''m2'') ex_channel = ex_stub"
    by (simp add: stub_message_def ex_stub_def ex_channel_def)
  note t = stub_message_created [where M = "Some ''m2''" and patch_of = ex_patch
      and cache = True and ev = "ex_data ''m2''" and chan0 = ex_channel, OF a b]
  note u = stub_message_created [where M = "Some ''m2''" and patch_of = ex_patch
      and cache = False and data = ?d and manager = "messages ex_channel", OF a b]
  have r: "getMessage ex_action_client ex_patch ''MESSAGE'' (ex_data ''m2'') ex_channel True
       = Inr (Some ex_stub, coll_set (messages ex_channel) (Some ''m2'') (Some ex_stub))"
    using t [THEN conjunct2, THEN conjunct1, THEN mp, OF conjI, OF c conjI, OF d conjI, OF e f]
    by (simp add: s)
  have g: "getPayload ex_action_client ex_patch ?d (messages ex_channel) (Some ''m2'')
      ''MESSAGE'' False MessageClass = Inr (Some ex_stub, messages ex_channel)"
    using u [THEN conjunct1] c by (simp add: s)
  have i: "msg_id ex_stub = Some ''m2''"
    using t [THEN conjunct2, THEN conjunct2, THEN conjunct1] by (simp add: s)
  have p: "partial ex_stub"
    using t [THEN conjunct2, THEN conjunct2, THEN conjunct2, THEN conjunct2, THEN conjunct2]
    by (simp add: s)
  show ?thesis by (intro conjI a b c d e f r g i p)
qed

end
